theory Spec2Isabelle
  imports Main "HOL-Library.Multiset"
begin

section \<open>Data model (frontend/src/types)\<close>

text \<open>
  The graph sent by \<^verbatim>\<open>/api/graph\<close>. A node carries a type tag and a data object; the
  TypeScript types do not tie the tag to the shape of the data, so the model keeps them
  independent as well. All coordinates of the layout are sums and products of small integer
  literals and array lengths, on which JavaScript's doubles are exact; they are modelled as
  \<open>int\<close>.
\<close>

datatype NodeType = TComputePool | TService | TNotebook | TEai

datatype NodeData =
    ComputePoolData string string int int string string
      \<comment> \<open>name, state, minNodes, maxNodes, instanceFamily, owner\<close>
  | ServiceData string string string string string string int int "string list"
      \<comment> \<open>name, database, schema, owner, computePool, status, currentInstances,
          targetInstances, eaiList\<close>
  | NotebookData string string string string "string option" "int option"
      \<comment> \<open>name, database, schema, owner, warehouse, idleTimeout\<close>
  | EaiData string string bool
      \<comment> \<open>name, type, enabled\<close>

text \<open>\<^verbatim>\<open>data.name\<close>: every variant of the union has the property.\<close>

fun data_name :: "NodeData \<Rightarrow> string" where
  "data_name (ComputePoolData n _ _ _ _ _) = n"
| "data_name (ServiceData n _ _ _ _ _ _ _ _) = n"
| "data_name (NotebookData n _ _ _ _ _) = n"
| "data_name (EaiData n _ _) = n"

text \<open>
  \<^verbatim>\<open>(data as ServiceData).computePool\<close>: the cast checks nothing at run time, so on data of
  another variant the property read gives \<^verbatim>\<open>undefined\<close>, here \<open>None\<close>.
\<close>

fun data_computePool :: "NodeData \<Rightarrow> string option" where
  "data_computePool (ServiceData _ _ _ _ cp _ _ _ _) = Some cp"
| "data_computePool _ = None"

record GraphNode =
  node_id :: string
  node_type :: NodeType
  node_data :: NodeData

record GraphEdge =
  edge_id :: string
  source :: string
  target :: string
  label :: "string option"

record GraphData =
  nodes :: "GraphNode list"
  edges :: "GraphEdge list"

section \<open>Layout output (frontend/src/components/NetworkGraph.tsx)\<close>

record Position =
  pos_x :: int
  pos_y :: int

text \<open>
  The three properties the layout adds to the data of a compute-pool node. The toggle
  handle is the closure \<^verbatim>\<open>() => togglePoolCollapse(pool.id)\<close>; it is represented by the
  pool id it passes. \<^verbatim>\<open>__collapsed\<close> receives the value read from the collapse map; the
  pool node component reads it as a condition only (\<^verbatim>\<open>data.__collapsed ?? false\<close> in
  conditional expressions), and it is represented by its truthiness.
\<close>

record PoolMeta =
  collapsed :: bool
  serviceCount :: nat
  onToggleCollapse :: string

record LayoutNode = GraphNode +
  position :: Position
  meta :: "PoolMeta option"

record LayoutResult =
  result_nodes :: "LayoutNode list"
  hiddenServiceIds :: "string set"

text \<open>
  The rendered edge: the four properties copied from the graph edge, and the edge type and
  animation flag. The three style objects of the source are the same literals on every edge
  and are left out.
\<close>

record Edge = GraphEdge +
  edge_type :: string
  animated :: bool

subsection \<open>Layout parameters\<close>

definition xPositions_notebook :: int where "xPositions_notebook = 0"
definition xPositions_service :: int where "xPositions_service = 400"
definition xPositions_computePool :: int where "xPositions_computePool = 750"
definition xPositions_eai :: int where "xPositions_eai = 1100"
definition clusterSpacing :: int where "clusterSpacing = 40"
definition serviceYSpacing :: int where "serviceYSpacing = 70"
definition notebookYSpacing :: int where "notebookYSpacing = 100"
definition eaiYSpacing :: int where "eaiYSpacing = 80"
definition yOffset :: int where "yOffset = 50"

subsection \<open>Grouping services by compute pool\<close>

text \<open>
  \<^verbatim>\<open>servicesByPool\<close> is a \<^verbatim>\<open>Map\<close> from the pool name read off the service to the array of
  services pushed under it, in input order.
\<close>

type_synonym ServicesByPool = "string option \<rightharpoonup> GraphNode list"

definition pushService :: "GraphNode \<Rightarrow> ServicesByPool \<Rightarrow> ServicesByPool" where
  "pushService service m =
     (let poolName = data_computePool (node_data service);
          m1 = (if m poolName = None then m(poolName \<mapsto> []) else m)
      in m1(poolName \<mapsto> the (m1 poolName) @ [service]))"

definition servicesByPool :: "GraphData \<Rightarrow> ServicesByPool" where
  "servicesByPool graphData =
     fold pushService (filter (\<lambda>n. node_type n = TService) (nodes graphData)) Map.empty"

subsection \<open>Sorting compute pools\<close>

text \<open>
  \<^verbatim>\<open>Array.prototype.sort\<close> with a comparator is a stable sort: \<open>a\<close> goes before \<open>b\<close> when
  the comparator is negative, and elements that compare equal keep their order.
\<close>

fun insertBy :: "('a \<Rightarrow> 'a \<Rightarrow> int) \<Rightarrow> 'a \<Rightarrow> 'a list \<Rightarrow> 'a list" where
  "insertBy cmp a [] = [a]"
| "insertBy cmp a (b # bs) = (if cmp a b \<le> 0 then a # b # bs else b # insertBy cmp a bs)"

definition sortBy :: "('a \<Rightarrow> 'a \<Rightarrow> int) \<Rightarrow> 'a list \<Rightarrow> 'a list" where
  "sortBy cmp xs = foldr (insertBy cmp) xs []"

text \<open>\<^verbatim>\<open>servicesByPool.get(data.name)?.length || 0\<close>\<close>

definition poolCount :: "ServicesByPool \<Rightarrow> GraphNode \<Rightarrow> int" where
  "poolCount sbp a =
     (case sbp (Some (data_name (node_data a))) of None \<Rightarrow> 0 | Some l \<Rightarrow> int (length l))"

definition computePools :: "GraphData \<Rightarrow> GraphNode list" where
  "computePools graphData =
     sortBy (\<lambda>a b. poolCount (servicesByPool graphData) b - poolCount (servicesByPool graphData) a)
       (filter (\<lambda>n. node_type n = TComputePool) (nodes graphData))"

subsection \<open>The cluster loop\<close>

text \<open>
  The three variables the \<^verbatim>\<open>forEach\<close> over the sorted pools mutates: the output array, the
  set of hidden service ids and the running vertical cursor.
\<close>

record LayoutState =
  st_nodes :: "LayoutNode list"
  st_hidden :: "string set"
  currentY :: int

text \<open>
  The collapse map is a \<^verbatim>\<open>Record<string, boolean>\<close>: a plain object, created by \<^verbatim>\<open>{}\<close> and
  by object spread, whose own properties are the booleans the component writes under pool
  ids. The partial map holds the own properties.
\<close>

type_synonym CollapsedPools = "string \<rightharpoonup> bool"

text \<open>
  A property read \<^verbatim>\<open>collapsedPools[key]\<close> gives the own property when there is one, and
  otherwise what the object inherits from \<^verbatim>\<open>Object.prototype\<close>: a function under eleven
  names, the prototype object itself under \<^verbatim>\<open>__proto__\<close>, and \<^verbatim>\<open>undefined\<close> under every
  other name. Functions and objects are truthy and not nullish.
\<close>

definition objectPrototypeMembers :: "string list" where
  "objectPrototypeMembers =
     [''constructor'', ''hasOwnProperty'', ''isPrototypeOf'', ''propertyIsEnumerable'',
      ''toLocaleString'', ''toString'', ''valueOf'', ''__defineGetter__'', ''__defineSetter__'',
      ''__lookupGetter__'', ''__lookupSetter__'', ''__proto__'']"

datatype JSValue = JSUndefined | JSBoolean bool | JSObject

definition getProperty :: "CollapsedPools \<Rightarrow> string \<Rightarrow> JSValue" where
  "getProperty obj key =
     (case obj key of
        Some b \<Rightarrow> JSBoolean b
      | None \<Rightarrow> if key \<in> set objectPrototypeMembers then JSObject else JSUndefined)"

text \<open>\<^verbatim>\<open>a ?? b\<close>, and the truth value of a value in a condition or under \<^verbatim>\<open>!\<close>.\<close>

fun nullishCoalesce :: "JSValue \<Rightarrow> JSValue \<Rightarrow> JSValue" where
  "nullishCoalesce JSUndefined b = b"
| "nullishCoalesce a b = a"

fun truthy :: "JSValue \<Rightarrow> bool" where
  "truthy JSUndefined = False"
| "truthy (JSBoolean b) = b"
| "truthy JSObject = True"

text \<open>
  One iteration of the loop over the sorted pools. The cluster height is 80 or a multiple of
  70 that is at least 140, so it is even and \<^verbatim>\<open>clusterHeight / 2\<close> is the integer quotient
  (lemma \<open>clusterHeight_even\<close>). The third argument of the source function, the toggle
  callback, only ends up inside the toggle handle of the pool node.
\<close>

definition layoutPool :: "CollapsedPools \<Rightarrow> ServicesByPool \<Rightarrow> GraphNode \<Rightarrow> LayoutState \<Rightarrow> LayoutState" where
  "layoutPool collapsedPools sbp pool st =
     (let poolData = node_data pool;
          poolServices = (case sbp (Some (data_name poolData)) of None \<Rightarrow> [] | Some l \<Rightarrow> l);
          isCollapsed = nullishCoalesce (getProperty collapsedPools (node_id pool))
                          (JSBoolean False);
          visibleServiceCount = (if truthy isCollapsed then 0 else int (length poolServices));
          clusterHeight = max 80 (visibleServiceCount * serviceYSpacing);
          poolY = currentY st + (if clusterHeight > 0 then clusterHeight div 2 - 40 else 0);
          poolNode = \<lparr>node_id = node_id pool, node_type = node_type pool, node_data = poolData,
                      position = \<lparr>pos_x = xPositions_computePool, pos_y = poolY\<rparr>,
                      meta = Some \<lparr>collapsed = truthy isCollapsed,
                                   serviceCount = length poolServices,
                                   onToggleCollapse = node_id pool\<rparr>\<rparr>;
          serviceNodes = map (\<lambda>(idx, service).
                      \<lparr>node_id = node_id service, node_type = node_type service,
                       node_data = node_data service,
                       position = \<lparr>pos_x = xPositions_service,
                                   pos_y = currentY st + int idx * serviceYSpacing\<rparr>,
                       meta = None\<rparr>) (enumerate 0 poolServices)
      in \<lparr>st_nodes = st_nodes st @ [poolNode]
                       @ (if \<not> truthy isCollapsed then serviceNodes else []),
          st_hidden = (if \<not> truthy isCollapsed then st_hidden st
                       else st_hidden st \<union> set (map node_id poolServices)),
          currentY = currentY st + (clusterHeight + clusterSpacing)\<rparr>)"

definition columnNodes :: "int \<Rightarrow> int \<Rightarrow> GraphNode list \<Rightarrow> LayoutNode list" where
  "columnNodes xPos ySpacing ns =
     map (\<lambda>(index, node).
            \<lparr>node_id = node_id node, node_type = node_type node, node_data = node_data node,
             position = \<lparr>pos_x = xPos, pos_y = yOffset + int index * ySpacing\<rparr>,
             meta = None\<rparr>) (enumerate 0 ns)"

definition layoutNodesWithClusters :: "GraphData \<Rightarrow> CollapsedPools \<Rightarrow> LayoutResult" where
  "layoutNodesWithClusters graphData collapsedPools =
     (let st = fold (layoutPool collapsedPools (servicesByPool graphData))
                 (computePools graphData)
                 \<lparr>st_nodes = [], st_hidden = {}, currentY = yOffset\<rparr>;
          notebooks = filter (\<lambda>n. node_type n = TNotebook) (nodes graphData);
          eais = filter (\<lambda>n. node_type n = TEai) (nodes graphData)
      in \<lparr>result_nodes = st_nodes st
             @ columnNodes xPositions_notebook notebookYSpacing notebooks
             @ columnNodes xPositions_eai eaiYSpacing eais,
          hiddenServiceIds = st_hidden st\<rparr>)"

subsection \<open>Edge filter\<close>

definition createEdges :: "GraphData \<Rightarrow> string set \<Rightarrow> Edge list" where
  "createEdges graphData hidden =
     map (\<lambda>edge. \<lparr>edge_id = edge_id edge, source = source edge, target = target edge,
                   label = label edge, edge_type = ''smoothstep'', animated = True\<rparr>)
       (filter (\<lambda>edge. source edge \<notin> hidden \<and> target edge \<notin> hidden) (edges graphData))"

subsection \<open>Collapse state of the component\<close>

text \<open>\<^verbatim>\<open>useState<Record<string, boolean>>({})\<close>\<close>

definition initialCollapsedPools :: CollapsedPools where
  "initialCollapsedPools = Map.empty"

text \<open>
  \<^verbatim>\<open>{...prev, [poolId]: !prev[poolId]}\<close>: the spread copies the own properties, and the
  computed key writes an own property, the negation of what the read gives (\<^verbatim>\<open>true\<close>
  for \<^verbatim>\<open>undefined\<close>, \<^verbatim>\<open>false\<close> for an inherited member).
\<close>

definition togglePoolCollapse :: "CollapsedPools \<Rightarrow> string \<Rightarrow> CollapsedPools" where
  "togglePoolCollapse prev poolId = prev(poolId \<mapsto> \<not> truthy (getProperty prev poolId))"

text \<open>What the component hands to the rendering surface for a graph and a collapse map.\<close>

definition rendered :: "GraphData \<Rightarrow> CollapsedPools \<Rightarrow> LayoutNode list \<times> Edge list" where
  "rendered graphData collapsedPools =
     (let r = layoutNodesWithClusters graphData collapsedPools
      in (result_nodes r, createEdges graphData (hiddenServiceIds r)))"

section \<open>Observations on the cluster loop\<close>

text \<open>
  Names for the local values of one iteration of the cluster loop, as functions of the
  graph, the collapse map and the pool. Lemma \<open>layoutPool_eq\<close> below shows that the loop
  body computes exactly these.
\<close>

definition poolServices :: "GraphData \<Rightarrow> GraphNode \<Rightarrow> GraphNode list" where
  "poolServices g pool =
     filter (\<lambda>s. node_type s = TService \<and>
                  data_computePool (node_data s) = Some (data_name (node_data pool))) (nodes g)"

definition isCollapsed :: "CollapsedPools \<Rightarrow> string \<Rightarrow> bool" where
  "isCollapsed collapsedPools poolId =
     truthy (nullishCoalesce (getProperty collapsedPools poolId) (JSBoolean False))"

definition clusterHeight :: "GraphData \<Rightarrow> CollapsedPools \<Rightarrow> GraphNode \<Rightarrow> int" where
  "clusterHeight g m pool =
     max 80 ((if isCollapsed m (node_id pool) then 0 else int (length (poolServices g pool)))
               * serviceYSpacing)"

definition poolNodeAt :: "GraphData \<Rightarrow> CollapsedPools \<Rightarrow> GraphNode \<Rightarrow> int \<Rightarrow> LayoutNode" where
  "poolNodeAt g m pool y0 =
     \<lparr>node_id = node_id pool, node_type = node_type pool, node_data = node_data pool,
      position = \<lparr>pos_x = xPositions_computePool,
                  pos_y = y0 + (clusterHeight g m pool div 2 - 40)\<rparr>,
      meta = Some \<lparr>collapsed = isCollapsed m (node_id pool),
                   serviceCount = length (poolServices g pool),
                   onToggleCollapse = node_id pool\<rparr>\<rparr>"

definition serviceNodesAt :: "GraphData \<Rightarrow> GraphNode \<Rightarrow> int \<Rightarrow> LayoutNode list" where
  "serviceNodesAt g pool y0 =
     map (\<lambda>(idx, service).
            \<lparr>node_id = node_id service, node_type = node_type service,
             node_data = node_data service,
             position = \<lparr>pos_x = xPositions_service, pos_y = y0 + int idx * serviceYSpacing\<rparr>,
             meta = None\<rparr>) (enumerate 0 (poolServices g pool))"

definition clusterNodes :: "GraphData \<Rightarrow> CollapsedPools \<Rightarrow> GraphNode \<Rightarrow> int \<Rightarrow> LayoutNode list" where
  "clusterNodes g m pool y0 =
     poolNodeAt g m pool y0
       # (if isCollapsed m (node_id pool) then [] else serviceNodesAt g pool y0)"

definition clusterHidden :: "GraphData \<Rightarrow> CollapsedPools \<Rightarrow> GraphNode \<Rightarrow> string set" where
  "clusterHidden g m pool =
     (if isCollapsed m (node_id pool) then set (map node_id (poolServices g pool)) else {})"

text \<open>
  The clusters in layout order: each pool with the value of the cursor when its iteration
  starts (the top of its cluster) and its cluster height.
\<close>

fun clusterSpans ::
  "GraphData \<Rightarrow> CollapsedPools \<Rightarrow> GraphNode list \<Rightarrow> int \<Rightarrow> (GraphNode \<times> int \<times> int) list" where
  "clusterSpans g m [] y0 = []"
| "clusterSpans g m (pool # pools) y0 =
     (pool, y0, clusterHeight g m pool)
       # clusterSpans g m pools (y0 + (clusterHeight g m pool + clusterSpacing))"

definition clusters :: "GraphData \<Rightarrow> CollapsedPools \<Rightarrow> (GraphNode \<times> int \<times> int) list" where
  "clusters g m = clusterSpans g m (computePools g) yOffset"

definition poolNodes :: "GraphData \<Rightarrow> GraphNode list" where
  "poolNodes g = filter (\<lambda>n. node_type n = TComputePool) (nodes g)"

text \<open>The graph node an output node was made from.\<close>

definition graphNodeOf :: "LayoutNode \<Rightarrow> GraphNode" where
  "graphNodeOf n = \<lparr>node_id = node_id n, node_type = node_type n, node_data = node_data n\<rparr>"

text \<open>Top and height of a cluster of \<open>clusters\<close>.\<close>

definition span_top :: "GraphNode \<times> int \<times> int \<Rightarrow> int" where
  "span_top c = fst (snd c)"

definition span_height :: "GraphNode \<times> int \<times> int \<Rightarrow> int" where
  "span_height c = snd (snd c)"

text \<open>
  The graph nodes one iteration of the cluster loop pushes: the pool, then its services
  unless the pool is collapsed.
\<close>

definition visibleCluster :: "GraphData \<Rightarrow> CollapsedPools \<Rightarrow> GraphNode \<Rightarrow> GraphNode list" where
  "visibleCluster g m q = q # (if isCollapsed m (node_id q) then [] else poolServices g q)"

text \<open>The rendered edge \<open>createEdges\<close> makes of a graph edge.\<close>

definition styledEdge :: "GraphEdge \<Rightarrow> Edge" where
  "styledEdge e = \<lparr>edge_id = edge_id e, source = source e, target = target e, label = label e,
                   edge_type = ''smoothstep'', animated = True\<rparr>"

text \<open>
  The graphs the backend emits (sections 3, 4.2 and 4.3 of the specification): node ids
  are unique, and every edge leads from a service node to a compute-pool node (runs on) or
  to an integration node (uses).
\<close>

definition wellFormed :: "GraphData \<Rightarrow> bool" where
  "wellFormed g \<longleftrightarrow>
     distinct (map node_id (nodes g))
     \<and> (\<forall>e \<in> set (edges g).
           source e \<in> set (map node_id (filter (\<lambda>n. node_type n = TService) (nodes g)))
         \<and> target e \<in> set (map node_id (filter (\<lambda>n. node_type n = TComputePool
                                                     \<or> node_type n = TEai) (nodes g))))"

section \<open>Backend: reference validation and service reconciliation\<close>

text \<open>
  Modelled from the spec: the backend module \<^verbatim>\<open>backend/services/snowflake_service.py\<close>
  (\<^verbatim>\<open>get_graph_data\<close>, \<^verbatim>\<open>get_services\<close>) is not among the sources; only the feature notes
  that describe it are. The validator follows section 4.3 of the specification: build the
  set of valid node ids, keep an edge only when both endpoints are in it, and report the
  dropped edges.
\<close>

definition validate :: "GraphNode list \<Rightarrow> GraphEdge list \<Rightarrow> GraphData \<times> GraphEdge list" where
  "validate candidate_nodes candidate_edges =
     (let valid_ids = set (map node_id candidate_nodes);
          ok = (\<lambda>e. source e \<in> valid_ids \<and> target e \<in> valid_ids)
      in (\<lparr>nodes = candidate_nodes, edges = filter ok candidate_edges\<rparr>,
          filter (\<lambda>e. \<not> ok e) candidate_edges))"

text \<open>
  Modelled from the spec: the service entity of section 3 and the reconciler of section
  4.1 (\<^verbatim>\<open>get_services\<close>, absent from the sources). A mapping keyed by the fully qualified
  service name receives the baseline entries first and then, pool by pool, the pool-scoped
  entries, each overwriting an entry with the same key; a failed fetch contributes nothing.
  The mapping keeps insertion order, as the dictionary of the feature note does.
\<close>

record Service =
  svc_database :: string
  svc_schema :: string
  svc_name :: string
  svc_owner :: string
  svc_status :: string
  svc_currentInstances :: nat
  svc_targetInstances :: nat
  svc_computePool :: string
  svc_eaiList :: "string list"

definition service_key :: "Service \<Rightarrow> string" where
  "service_key s = svc_database s @ ''.'' @ svc_schema s @ ''.'' @ svc_name s"

fun dict_set :: "'k \<Rightarrow> 'v \<Rightarrow> ('k \<times> 'v) list \<Rightarrow> ('k \<times> 'v) list" where
  "dict_set k v [] = [(k, v)]"
| "dict_set k v ((k', v') # kvs) =
     (if k' = k then (k, v) # kvs else (k', v') # dict_set k v kvs)"

definition rows :: "'a list option \<Rightarrow> 'a list" where
  "rows r = (case r of None \<Rightarrow> [] | Some l \<Rightarrow> l)"

definition put_services :: "Service list \<Rightarrow> (string \<times> Service) list \<Rightarrow> (string \<times> Service) list" where
  "put_services services services_map =
     fold (\<lambda>service m. dict_set (service_key service) service m) services services_map"

definition get_services ::
  "Service list option \<Rightarrow> (string \<times> Service list option) list \<Rightarrow> Service list" where
  "get_services baseline pool_results =
     (let services_map = put_services (rows baseline) [];
          services_map = fold (\<lambda>(pool, result) m. put_services (rows result) m)
                           pool_results services_map
      in map snd services_map)"

text \<open>All pool-scoped records, in the order the reconciler inserts them.\<close>

definition pool_rows :: "(string \<times> Service list option) list \<Rightarrow> Service list" where
  "pool_rows pool_results = concat (map (\<lambda>(name, result). rows result) pool_results)"

text \<open>
  The invariant of the reconciler's mapping: no key twice, every record under its own key.
\<close>

definition keyed :: "(string \<times> Service) list \<Rightarrow> bool" where
  "keyed kvs \<longleftrightarrow> distinct (map fst kvs) \<and> (\<forall>(k, v) \<in> set kvs. k = service_key v)"

section \<open>Example inputs\<close>

definition ex_pool :: "string \<Rightarrow> GraphNode" where
  "ex_pool n = \<lparr>node_id = n, node_type = TComputePool,
             node_data = ComputePoolData n ''ACTIVE'' 1 2 ''CPU_X64_XS'' ''ADMIN''\<rparr>"

definition ex_svc :: "string \<Rightarrow> string \<Rightarrow> GraphNode" where
  "ex_svc n p = \<lparr>node_id = n, node_type = TService,
              node_data = ServiceData n ''DB'' ''PUBLIC'' ''ADMIN'' p ''RUNNING'' 1 1 []\<rparr>"

definition ex_edge :: "string \<Rightarrow> string \<Rightarrow> GraphEdge" where
  "ex_edge a b = \<lparr>edge_id = a @ ''-'' @ b, source = a, target = b, label = Some ''runs on''\<rparr>"

definition ex_notebook :: "string \<Rightarrow> GraphNode" where
  "ex_notebook n = \<lparr>node_id = n, node_type = TNotebook,
             node_data = NotebookData n ''DB'' ''PUBLIC'' ''ADMIN'' None None\<rparr>"

definition ex_eai :: "string \<Rightarrow> GraphNode" where
  "ex_eai n = \<lparr>node_id = n, node_type = TEai, node_data = EaiData n ''EXTERNAL_ACCESS'' True\<rparr>"

text \<open>
  Two pools, \<open>B\<close> with two services and \<open>A\<close> with none, a service \<open>s3\<close> whose pool
  attribute is empty, a notebook and an integration.
\<close>

definition ex_graph :: GraphData where
  "ex_graph =
     \<lparr>nodes = [ex_pool ''A'', ex_pool ''B'', ex_svc ''s1'' ''B'', ex_svc ''s2'' ''B'',
               ex_svc ''s3'' [], ex_notebook ''n1'', ex_eai ''e1''],
      edges = [ex_edge ''s1'' ''B'', ex_edge ''s2'' ''B'', ex_edge ''s2'' ''e1'',
               ex_edge ''s3'' ''e1'']\<rparr>"

text \<open>A service record of the reconciler.\<close>

definition ex_service :: "string \<Rightarrow> string \<Rightarrow> string \<Rightarrow> string \<Rightarrow> Service" where
  "ex_service db sch n p =
     \<lparr>svc_database = db, svc_schema = sch, svc_name = n, svc_owner = ''ADMIN'',
      svc_status = ''RUNNING'', svc_currentInstances = 1, svc_targetInstances = 1,
      svc_computePool = p, svc_eaiList = []\<rparr>"

text \<open>
  Two pools in the input order SMALL, BIG, with two and five services.
\<close>

definition ex_graph52 :: GraphData where
  "ex_graph52 =
     \<lparr>nodes = [ex_pool ''SMALL'', ex_pool ''BIG'', ex_svc ''a1'' ''SMALL'', ex_svc ''b1'' ''BIG'',
               ex_svc ''b2'' ''BIG'', ex_svc ''a2'' ''SMALL'', ex_svc ''b3'' ''BIG'',
               ex_svc ''b4'' ''BIG'', ex_svc ''b5'' ''BIG''],
      edges = []\<rparr>"

text \<open>
  A pool \<open>P\<close> with three services, one of them using the integration \<open>e1\<close>, and a
  pool \<open>Q\<close> with one service.
\<close>

definition ex_graph3 :: GraphData where
  "ex_graph3 =
     \<lparr>nodes = [ex_pool ''P'', ex_pool ''Q'', ex_svc ''s1'' ''P'', ex_svc ''s2'' ''P'',
               ex_svc ''s3'' ''P'', ex_svc ''t1'' ''Q'', ex_eai ''e1''],
      edges = [ex_edge ''s1'' ''P'', ex_edge ''s2'' ''P'', ex_edge ''s3'' ''P'',
               ex_edge ''s1'' ''e1'', ex_edge ''t1'' ''Q'']\<rparr>"

text \<open>A pool whose id is the name of a member of \<^verbatim>\<open>Object.prototype\<close>, with one service.\<close>

definition ex_graph_inherited :: GraphData where
  "ex_graph_inherited =
     \<lparr>nodes = [ex_pool ''constructor'', ex_svc ''s1'' ''constructor''],
      edges = [ex_edge ''s1'' ''constructor'']\<rparr>"

section \<open>Grouping and sorting\<close>

lemma pushService_get:
  "pushService x m k =
     (if data_computePool (node_data x) = k
      then Some ((case m k of None \<Rightarrow> [] | Some l0 \<Rightarrow> l0) @ [x]) else m k)"
  by (auto simp: pushService_def Let_def split: option.splits)

lemma fold_pushService:
  "fold pushService xs m k =
     (let l = filter (\<lambda>s. data_computePool (node_data s) = k) xs
      in if l = [] then m k else Some ((case m k of None \<Rightarrow> [] | Some l0 \<Rightarrow> l0) @ l))"
proof (induction xs arbitrary: m)
  case Nil
  then show ?case by simp
next
  case (Cons x xs)
  have "fold pushService (x # xs) m k = fold pushService xs (pushService x m) k"
    by simp
  also have "\<dots> = (let l = filter (\<lambda>s. data_computePool (node_data s) = k) xs
      in if l = [] then pushService x m k
         else Some ((case pushService x m k of None \<Rightarrow> [] | Some l0 \<Rightarrow> l0) @ l))"
    by (rule Cons.IH)
  also have "\<dots> = (let l = filter (\<lambda>s. data_computePool (node_data s) = k) (x # xs)
      in if l = [] then m k else Some ((case m k of None \<Rightarrow> [] | Some l0 \<Rightarrow> l0) @ l))"
    by (simp add: pushService_get Let_def split: option.splits)
  finally show ?case .
qed

lemma servicesByPool_get:
  "(case servicesByPool g (Some (data_name (node_data p))) of None \<Rightarrow> [] | Some l \<Rightarrow> l)
     = poolServices g p"
  by (simp add: servicesByPool_def fold_pushService poolServices_def Let_def conj_commute)

lemma poolCount_eq: "poolCount (servicesByPool g) p = int (length (poolServices g p))"
  using servicesByPool_get [of g p]
  by (simp add: poolCount_def split: option.splits)

lemma insertBy_insort_key:
  "insertBy (\<lambda>a b. f b - f a) x xs = insort_key (\<lambda>a. - f a) x xs"
  by (induction xs) auto

lemma sortBy_sort_key: "sortBy (\<lambda>a b. f b - f a) xs = sort_key (\<lambda>a. - f a) xs"
  by (induction xs) (simp_all add: sortBy_def insertBy_insort_key)

lemma computePools_eq:
  "computePools g = sort_key (\<lambda>p. - int (length (poolServices g p))) (poolNodes g)"
  by (simp add: computePools_def sortBy_sort_key poolNodes_def poolCount_eq)

lemma set_computePools: "set (computePools g) = set (poolNodes g)"
  by (simp add: computePools_eq)

lemma mset_computePools: "mset (computePools g) = mset (poolNodes g)"
  by (simp add: computePools_eq)

section \<open>The cluster loop in closed form\<close>

lemma clusterHeight_ge: "80 \<le> clusterHeight g m p"
  by (simp add: clusterHeight_def)

lemma clusterHeight_even: "even (clusterHeight g m p)"
  by (simp add: clusterHeight_def serviceYSpacing_def max_def)

lemma layoutPool_eq:
  "layoutPool m (servicesByPool g) p st =
     \<lparr>st_nodes = st_nodes st @ clusterNodes g m p (currentY st),
      st_hidden = st_hidden st \<union> clusterHidden g m p,
      currentY = currentY st + (clusterHeight g m p + clusterSpacing)\<rparr>"
  using clusterHeight_ge [of g m p]
  by (simp add: layoutPool_def servicesByPool_get Let_def clusterNodes_def clusterHidden_def
      poolNodeAt_def serviceNodesAt_def isCollapsed_def clusterHeight_def)

lemma fold_layoutPool:
  "fold (layoutPool m (servicesByPool g)) ps st =
     \<lparr>st_nodes = st_nodes st
         @ concat (map (\<lambda>(p, y0, h). clusterNodes g m p y0)
                     (clusterSpans g m ps (currentY st))),
      st_hidden = st_hidden st \<union> (\<Union>p \<in> set ps. clusterHidden g m p),
      currentY = currentY st + (\<Sum>p \<leftarrow> ps. clusterHeight g m p + clusterSpacing)\<rparr>"
proof (induction ps arbitrary: st)
  case Nil
  then show ?case by simp
next
  case (Cons p ps)
  let ?st1 = "layoutPool m (servicesByPool g) p st"
  have "fold (layoutPool m (servicesByPool g)) (p # ps) st =
        fold (layoutPool m (servicesByPool g)) ps ?st1"
    by simp
  also have "\<dots> = \<lparr>st_nodes = st_nodes ?st1
         @ concat (map (\<lambda>(p, y0, h). clusterNodes g m p y0)
                     (clusterSpans g m ps (currentY ?st1))),
      st_hidden = st_hidden ?st1 \<union> (\<Union>p \<in> set ps. clusterHidden g m p),
      currentY = currentY ?st1 + (\<Sum>p \<leftarrow> ps. clusterHeight g m p + clusterSpacing)\<rparr>"
    by (rule Cons.IH)
  also have "\<dots> = \<lparr>st_nodes = st_nodes st
         @ concat (map (\<lambda>(p, y0, h). clusterNodes g m p y0)
                     (clusterSpans g m (p # ps) (currentY st))),
      st_hidden = st_hidden st \<union> (\<Union>p \<in> set (p # ps). clusterHidden g m p),
      currentY = currentY st + (\<Sum>p \<leftarrow> p # ps. clusterHeight g m p + clusterSpacing)\<rparr>"
    by (simp add: layoutPool_eq Un_assoc add.assoc)
  finally show ?case .
qed

lemma layout_eq:
  "layoutNodesWithClusters g m =
     \<lparr>result_nodes = concat (map (\<lambda>(p, y0, h). clusterNodes g m p y0) (clusters g m))
         @ columnNodes xPositions_notebook notebookYSpacing
             (filter (\<lambda>n. node_type n = TNotebook) (nodes g))
         @ columnNodes xPositions_eai eaiYSpacing (filter (\<lambda>n. node_type n = TEai) (nodes g)),
      hiddenServiceIds = (\<Union>p \<in> set (poolNodes g). clusterHidden g m p)\<rparr>"
  by (simp add: layoutNodesWithClusters_def fold_layoutPool clusters_def Let_def set_computePools)

section \<open>Dependence on the collapse map\<close>

lemma layoutPool_cong:
  assumes "isCollapsed m (node_id p) = isCollapsed m' (node_id p)"
  shows "layoutPool m sbp p = layoutPool m' sbp p"
proof
  fix st
  from assms have "truthy (nullishCoalesce (getProperty m (node_id p)) (JSBoolean False))
      = truthy (nullishCoalesce (getProperty m' (node_id p)) (JSBoolean False))"
    by (simp only: isCollapsed_def)
  then show "layoutPool m sbp p st = layoutPool m' sbp p st"
    by (simp only: layoutPool_def Let_def)
qed

lemma layout_cong:
  assumes "\<And>p. p \<in> set (poolNodes g) \<Longrightarrow> isCollapsed m (node_id p) = isCollapsed m' (node_id p)"
  shows "layoutNodesWithClusters g m = layoutNodesWithClusters g m'"
proof -
  have "fold (layoutPool m (servicesByPool g)) (computePools g)
          \<lparr>st_nodes = [], st_hidden = {}, currentY = yOffset\<rparr>
      = fold (layoutPool m' (servicesByPool g)) (computePools g)
          \<lparr>st_nodes = [], st_hidden = {}, currentY = yOffset\<rparr>"
  proof (rule fold_cong)
    fix p assume "p \<in> set (computePools g)"
    then have "p \<in> set (poolNodes g)" by (simp only: set_computePools)
    then show "layoutPool m (servicesByPool g) p = layoutPool m' (servicesByPool g) p"
      by (intro layoutPool_cong assms)
  qed (rule refl)+
  then show ?thesis
    by (simp add: layoutNodesWithClusters_def)
qed

lemma map_fst_clusterSpans: "map fst (clusterSpans g m ps y0) = ps"
  by (induction ps arbitrary: y0) simp_all

lemma truthy_nullishCoalesce: "truthy (nullishCoalesce v (JSBoolean False)) = truthy v"
  by (cases v) simp_all

lemma isCollapsed_eq: "isCollapsed m q = truthy (getProperty m q)"
  by (simp add: isCollapsed_def truthy_nullishCoalesce)

lemma isCollapsed_own: "m q = Some b \<Longrightarrow> isCollapsed m q = b"
  by (simp add: isCollapsed_eq getProperty_def)

lemma isCollapsed_absent:
  "m q = None \<Longrightarrow> isCollapsed m q \<longleftrightarrow> q \<in> set objectPrototypeMembers"
  by (simp add: isCollapsed_eq getProperty_def)

lemma isCollapsed_toggle:
  "isCollapsed (togglePoolCollapse m p) q = (if q = p then \<not> isCollapsed m p else isCollapsed m q)"
  by (simp add: isCollapsed_eq togglePoolCollapse_def getProperty_def)

section \<open>Reference validation\<close>

text \<open>
  Claim C1. Every edge of the validated graph has its source id and its target id among
  the ids of the validated graph's nodes, whatever the candidate nodes and edges are.
\<close>

theorem validate_sound:
  "\<forall>e \<in> set (edges (fst (validate ns es))).
      source e \<in> set (map node_id (nodes (fst (validate ns es))))
    \<and> target e \<in> set (map node_id (nodes (fst (validate ns es))))"
  by (simp add: validate_def Let_def)

text \<open>
  A service naming a pool that does not exist: its edge is dropped, the other one is kept.
\<close>

theorem validate_sound_witness:
  "edges (fst (validate [ex_pool ''A'', ex_svc ''s1'' ''A'', ex_svc ''s2'' ''GONE'']
                        [ex_edge ''s1'' ''A'', ex_edge ''s2'' ''GONE''])) = [ex_edge ''s1'' ''A'']
   \<and> source (ex_edge ''s1'' ''A'')
        \<in> set (map node_id (nodes (fst (validate
               [ex_pool ''A'', ex_svc ''s1'' ''A'', ex_svc ''s2'' ''GONE'']
               [ex_edge ''s1'' ''A'', ex_edge ''s2'' ''GONE'']))))
   \<and> target (ex_edge ''s1'' ''A'')
        \<in> set (map node_id (nodes (fst (validate
               [ex_pool ''A'', ex_svc ''s1'' ''A'', ex_svc ''s2'' ''GONE'']
               [ex_edge ''s1'' ''A'', ex_edge ''s2'' ''GONE'']))))"
proof -
  have kept: "edges (fst (validate [ex_pool ''A'', ex_svc ''s1'' ''A'', ex_svc ''s2'' ''GONE'']
                        [ex_edge ''s1'' ''A'', ex_edge ''s2'' ''GONE''])) = [ex_edge ''s1'' ''A'']"
    by code_simp
  then have "ex_edge ''s1'' ''A''
      \<in> set (edges (fst (validate [ex_pool ''A'', ex_svc ''s1'' ''A'', ex_svc ''s2'' ''GONE'']
                        [ex_edge ''s1'' ''A'', ex_edge ''s2'' ''GONE''])))"
    by (simp only: list.set insertI1)
  with validate_sound [of "[ex_pool ''A'', ex_svc ''s1'' ''A'', ex_svc ''s2'' ''GONE'']"
                          "[ex_edge ''s1'' ''A'', ex_edge ''s2'' ''GONE'']"] kept
  show ?thesis by blast
qed

section \<open>Collapse state\<close>

text \<open>
  Claim C7. Toggling a pool id twice gives back the effective collapse state of every pool
  id, the layout result (positions, pool metadata and hidden ids) and the rendered nodes and
  edges, for every graph, collapse map and pool id. The map itself may differ: an id that
  was absent is then present, with the truth value its read gave before.
\<close>

theorem toggle_twice_restores:
  "isCollapsed (togglePoolCollapse (togglePoolCollapse m p) p) q = isCollapsed m q
   \<and> layoutNodesWithClusters g (togglePoolCollapse (togglePoolCollapse m p) p)
       = layoutNodesWithClusters g m
   \<and> rendered g (togglePoolCollapse (togglePoolCollapse m p) p) = rendered g m"
proof -
  have c: "\<And>q. isCollapsed (togglePoolCollapse (togglePoolCollapse m p) p) q = isCollapsed m q"
    by (simp add: isCollapsed_toggle)
  have l: "layoutNodesWithClusters g (togglePoolCollapse (togglePoolCollapse m p) p)
       = layoutNodesWithClusters g m"
    by (rule layout_cong) (rule c)
  show ?thesis
    by (simp only: c l rendered_def simp_thms)
qed

theorem toggle_twice_restores_witness:
  "togglePoolCollapse (togglePoolCollapse Map.empty ''B'') ''B'' \<noteq> Map.empty
   \<and> (isCollapsed (togglePoolCollapse (togglePoolCollapse Map.empty ''B'') ''B'') ''B''
        = isCollapsed Map.empty ''B''
   \<and> layoutNodesWithClusters ex_graph (togglePoolCollapse (togglePoolCollapse Map.empty ''B'') ''B'')
       = layoutNodesWithClusters ex_graph Map.empty
   \<and> rendered ex_graph (togglePoolCollapse (togglePoolCollapse Map.empty ''B'') ''B'')
       = rendered ex_graph Map.empty)"
proof (rule conjI)
  have "togglePoolCollapse (togglePoolCollapse Map.empty ''B'') ''B'' ''B'' = Some False"
    by code_simp
  then show "togglePoolCollapse (togglePoolCollapse Map.empty ''B'') ''B'' \<noteq> Map.empty"
    by (metis option.distinct(1))
qed (rule toggle_twice_restores)

section \<open>Cluster heights\<close>

text \<open>
  Claim C6, as stated: the cursor moves past a collapsed pool by the inter-cluster gap alone.
  It does not: with pool \<open>B\<close> collapsed, the cursor goes from 50 to 170, not to 90, and
  the next pool is placed at 170.
\<close>

theorem collapsed_pool_zero_height_counterexample:
  "isCollapsed [''B'' \<mapsto> True] (node_id (ex_pool ''B''))
   \<and> currentY (layoutPool [''B'' \<mapsto> True] (servicesByPool ex_graph) (ex_pool ''B'')
                 \<lparr>st_nodes = [], st_hidden = {}, currentY = 50\<rparr>) = 170
   \<and> (170::int) \<noteq> 50 + clusterSpacing
   \<and> map (\<lambda>n. (node_id n, pos_y (position n)))
        (filter (\<lambda>n. node_type n = TComputePool)
           (result_nodes (layoutNodesWithClusters ex_graph [''B'' \<mapsto> True])))
       = [(''B'', 50), (''A'', 170)]"
  by code_simp

text \<open>
  Claim C6, amended. A collapsed pool has no visible service, and its cluster height is the
  floor of 80: the cursor moves past it by 80 plus the gap of 40, the iteration emits the
  pool node alone, and the pool node sits at the top of the cluster.
\<close>

theorem collapsed_pool_floor_height:
  assumes "isCollapsed m (node_id p)"
  shows "clusterHeight g m p = 80
     \<and> currentY (layoutPool m (servicesByPool g) p st) = currentY st + (80 + clusterSpacing)
     \<and> st_nodes (layoutPool m (servicesByPool g) p st) = st_nodes st @ [poolNodeAt g m p (currentY st)]
     \<and> pos_y (position (poolNodeAt g m p (currentY st))) = currentY st"
  using assms
  by (simp add: layoutPool_eq clusterHeight_def clusterNodes_def poolNodeAt_def)

theorem collapsed_pool_floor_height_witness:
  "isCollapsed [''B'' \<mapsto> True] (node_id (ex_pool ''B''))
   \<and> clusterHeight ex_graph [''B'' \<mapsto> True] (ex_pool ''B'') = 80
   \<and> currentY (layoutPool [''B'' \<mapsto> True] (servicesByPool ex_graph) (ex_pool ''B'')
                 \<lparr>st_nodes = [], st_hidden = {}, currentY = 50\<rparr>)
        = currentY \<lparr>st_nodes = [], st_hidden = {}, currentY = 50\<rparr> + (80 + clusterSpacing)
   \<and> st_nodes (layoutPool [''B'' \<mapsto> True] (servicesByPool ex_graph) (ex_pool ''B'')
                  \<lparr>st_nodes = [], st_hidden = {}, currentY = 50\<rparr>)
        = st_nodes \<lparr>st_nodes = [], st_hidden = {}, currentY = 50\<rparr>
            @ [poolNodeAt ex_graph [''B'' \<mapsto> True] (ex_pool ''B'')
                 (currentY \<lparr>st_nodes = [], st_hidden = {}, currentY = 50\<rparr>)]
   \<and> pos_y (position (poolNodeAt ex_graph [''B'' \<mapsto> True] (ex_pool ''B'')
                 (currentY \<lparr>st_nodes = [], st_hidden = {}, currentY = 50\<rparr>)))
        = currentY \<lparr>st_nodes = [], st_hidden = {}, currentY = 50\<rparr>"
proof -
  have h: "isCollapsed [''B'' \<mapsto> True] (node_id (ex_pool ''B''))"
    by code_simp
  from h collapsed_pool_floor_height [OF h] show ?thesis
    by (rule conjI)
qed

section \<open>Service reconciliation\<close>

lemma map_of_dict_set: "map_of (dict_set k v kvs) = (map_of kvs)(k \<mapsto> v)"
  by (induction k v kvs rule: dict_set.induct) (auto simp: fun_eq_iff)

lemma keys_dict_set: "set (map fst (dict_set k v kvs)) = insert k (set (map fst kvs))"
  by (induction k v kvs rule: dict_set.induct) (simp_all add: insert_commute)

lemma distinct_dict_set: "distinct (map fst kvs) \<Longrightarrow> distinct (map fst (dict_set k v kvs))"
  by (induction k v kvs rule: dict_set.induct) (auto simp: keys_dict_set [simplified])

lemma values_dict_set: "set (dict_set k v kvs) \<subseteq> insert (k, v) (set kvs)"
  by (induction k v kvs rule: dict_set.induct) auto

lemma keyed_dict_set: "keyed kvs \<Longrightarrow> keyed (dict_set (service_key s) s kvs)"
  unfolding keyed_def using values_dict_set [of "service_key s" s kvs]
  by (auto simp: distinct_dict_set)

lemma put_services_Cons:
  "put_services (x # xs) acc = put_services xs (dict_set (service_key x) x acc)"
  by (simp add: put_services_def)

lemma put_services_append: "put_services ys (put_services xs acc) = put_services (xs @ ys) acc"
  by (simp add: put_services_def)

lemma keyed_put_services: "keyed acc \<Longrightarrow> keyed (put_services xs acc)"
proof (induction xs arbitrary: acc)
  case Nil
  then show ?case by (simp add: put_services_def)
next
  case (Cons x xs)
  then show ?case by (simp only: put_services_Cons keyed_dict_set)
qed

lemma keys_put_services:
  "set (map fst (put_services xs acc)) = service_key ` set xs \<union> set (map fst acc)"
proof (induction xs arbitrary: acc)
  case Nil
  then show ?case by (simp add: put_services_def)
next
  case (Cons x xs)
  show ?case
    unfolding put_services_Cons Cons.IH keys_dict_set by auto
qed

lemma filter_key_empty: "filter (\<lambda>s. service_key s = k) xs = [] \<longleftrightarrow> k \<notin> service_key ` set xs"
  by (auto simp: filter_empty_conv)

lemma map_of_put_services:
  "map_of (put_services xs acc) k =
     (if k \<in> service_key ` set xs then Some (last (filter (\<lambda>s. service_key s = k) xs))
      else map_of acc k)"
proof (induction xs arbitrary: acc)
  case Nil
  then show ?case by (simp add: put_services_def)
next
  case (Cons x xs)
  show ?case
  proof (cases "k \<in> service_key ` set xs")
    case True
    then have "filter (\<lambda>s. service_key s = k) xs \<noteq> []"
      by (simp add: filter_key_empty)
    with True show ?thesis
      unfolding put_services_Cons Cons.IH by simp
  next
    case False
    then have "filter (\<lambda>s. service_key s = k) xs = []"
      by (simp add: filter_key_empty)
    with False show ?thesis
      unfolding put_services_Cons Cons.IH by (auto simp: map_of_dict_set)
  qed
qed

lemma fold_put_services:
  "fold (\<lambda>(name, result) m. put_services (rows result) m) prs acc
     = put_services (pool_rows prs) acc"
proof (induction prs arbitrary: acc)
  case Nil
  then show ?case by (simp add: pool_rows_def put_services_def)
next
  case (Cons pr prs)
  obtain name result where pr: "pr = (name, result)" by (cases pr)
  show ?case
    by (simp add: Cons.IH pr put_services_append pool_rows_def)
qed

lemma get_services_eq:
  "get_services baseline prs = map snd (put_services (rows baseline @ pool_rows prs) [])"
  by (simp add: get_services_def fold_put_services put_services_append Let_def)

lemma keyed_values:
  assumes "keyed kvs"
  shows "map service_key (map snd kvs) = map fst kvs"
  using assms unfolding keyed_def by (induction kvs) auto

lemma keyed_lookup:
  assumes "keyed kvs" "r \<in> set (map snd kvs)"
  shows "map_of kvs (service_key r) = Some r"
proof -
  from assms(2) obtain k where kr: "(k, r) \<in> set kvs" by auto
  with assms(1) have "k = service_key r" unfolding keyed_def by auto
  with kr assms(1) show ?thesis unfolding keyed_def by simp
qed

lemma pool_rows_split:
  "pool_rows (before @ (name, Some Pi) # after) = pool_rows before @ Pi @ pool_rows after"
  by (simp add: pool_rows_def rows_def)

lemma last_filter_append:
  "filter P ys \<noteq> [] \<Longrightarrow> last (filter P (xs @ ys)) = last (filter P ys)"
  by simp

text \<open>
  Claim C3. The reconciled list holds exactly one entry per distinct fully qualified name
  among the baseline and pool-scoped records; and for every name that a pool-scoped list
  \<open>Pi\<close> supplies and no later pool-scoped list supplies again, the retained entry is the
  last record of that name in \<open>Pi\<close>: a record of \<open>Pi\<close>, with its compute-pool attribute,
  never the baseline's.
\<close>

theorem reconcile_dedup_override:
  "distinct (map service_key (get_services baseline prs))
   \<and> set (map service_key (get_services baseline prs))
        = service_key ` (set (rows baseline) \<union> set (pool_rows prs))
   \<and> (\<forall>r \<in> set (get_services baseline prs). \<forall>before name Pi after.
          prs = before @ (name, Some Pi) # after
          \<longrightarrow> service_key r \<in> service_key ` set Pi
          \<longrightarrow> service_key r \<notin> service_key ` set (pool_rows after)
          \<longrightarrow> r = last (filter (\<lambda>s. service_key s = service_key r) Pi) \<and> r \<in> set Pi)"
proof -
  let ?all = "rows baseline @ pool_rows prs"
  let ?m = "put_services ?all []"
  have R: "get_services baseline prs = map snd ?m"
    by (rule get_services_eq)
  have k: "keyed ?m"
    by (rule keyed_put_services) (simp add: keyed_def)
  have keys: "map service_key (map snd ?m) = map fst ?m"
    using k by (rule keyed_values)
  have d: "distinct (map service_key (get_services baseline prs))"
    unfolding R keys using k by (simp add: keyed_def)
  have s: "set (map service_key (get_services baseline prs))
        = service_key ` (set (rows baseline) \<union> set (pool_rows prs))"
    unfolding R keys keys_put_services by simp
  have l: "r = last (filter (\<lambda>s. service_key s = service_key r) Pi) \<and> r \<in> set Pi"
    if r: "r \<in> set (get_services baseline prs)"
      and prs: "prs = before @ (name, Some Pi) # after"
      and inPi: "service_key r \<in> service_key ` set Pi"
      and notafter: "service_key r \<notin> service_key ` set (pool_rows after)"
    for r before name Pi after
  proof -
    let ?f = "filter (\<lambda>s. service_key s = service_key r)"
    have ne: "?f Pi \<noteq> []"
      using inPi by (simp add: filter_key_empty)
    have e: "?f (pool_rows after) = []"
      using notafter by (simp add: filter_key_empty)
    have "map_of ?m (service_key r) = Some r"
      using k r unfolding R by (rule keyed_lookup)
    moreover have "service_key r \<in> service_key ` set ?all"
      using inPi by (auto simp: prs pool_rows_split)
    ultimately have "r = last (?f ?all)"
      by (simp add: map_of_put_services)
    also have "?f ?all = (?f (rows baseline) @ ?f (pool_rows before)) @ ?f Pi"
      by (simp add: prs pool_rows_split e)
    also have "last \<dots> = last (?f Pi)"
      using ne by (rule last_appendR)
    finally have eq: "r = last (?f Pi)" .
    have "last (?f Pi) \<in> set (?f Pi)"
      using ne by (rule last_in_set)
    with eq show ?thesis by simp
  qed
  show ?thesis
    using d s l by blast
qed

text \<open>
  The scenario of the specification: baseline \<open>A.B.S1\<close> with an empty pool, pool-scoped
  \<open>A.B.S1\<close> under \<open>POOL1\<close>; one service results, with pool \<open>POOL1\<close>.
\<close>

theorem reconcile_dedup_override_witness:
  "get_services (Some [ex_service ''A'' ''B'' ''S1'' []])
       [(''POOL1'', Some [ex_service ''A'' ''B'' ''S1'' ''POOL1''])]
     = [ex_service ''A'' ''B'' ''S1'' ''POOL1'']
   \<and> distinct (map service_key (get_services (Some [ex_service ''A'' ''B'' ''S1'' []])
       [(''POOL1'', Some [ex_service ''A'' ''B'' ''S1'' ''POOL1''])]))
   \<and> ex_service ''A'' ''B'' ''S1'' ''POOL1''
       = last (filter (\<lambda>s. service_key s = service_key (ex_service ''A'' ''B'' ''S1'' ''POOL1''))
                 [ex_service ''A'' ''B'' ''S1'' ''POOL1''])
   \<and> svc_computePool (ex_service ''A'' ''B'' ''S1'' ''POOL1'') = ''POOL1''"
proof -
  let ?b = "ex_service ''A'' ''B'' ''S1'' []"
  let ?p = "ex_service ''A'' ''B'' ''S1'' ''POOL1''"
  let ?prs = "[(''POOL1'', Some [?p])]"
  have a: "get_services (Some [?b]) ?prs = [?p]"
    by code_simp
  note t = reconcile_dedup_override [of "Some [?b]" ?prs]
  from t have d: "distinct (map service_key (get_services (Some [?b]) ?prs))"
    by (rule conjunct1)
  from t have l: "r = last (filter (\<lambda>s. service_key s = service_key r) Pi) \<and> r \<in> set Pi"
    if "r \<in> set (get_services (Some [?b]) ?prs)" "?prs = before @ (name, Some Pi) # after"
      "service_key r \<in> service_key ` set Pi"
      "service_key r \<notin> service_key ` set (pool_rows after)"
    for r before name Pi after
    using that by blast
  have "?p = last (filter (\<lambda>s. service_key s = service_key ?p) [?p]) \<and> ?p \<in> set [?p]"
    by (rule l [of ?p "[]" "''POOL1''" "[?p]" "[]"]) (simp_all add: a pool_rows_def)
  moreover have "svc_computePool ?p = ''POOL1''"
    by (simp add: ex_service_def)
  ultimately show ?thesis
    using a d by blast
qed

section \<open>Cluster spans\<close>

lemma clusterSpans_member:
  "c \<in> set (clusterSpans g m ps y0) \<Longrightarrow>
     fst c \<in> set ps \<and> y0 \<le> span_top c \<and> span_height c = clusterHeight g m (fst c)"
proof (induction ps arbitrary: y0)
  case Nil
  then show ?case by simp
next
  case (Cons p ps)
  from Cons.prems consider "c = (p, y0, clusterHeight g m p)"
    | "c \<in> set (clusterSpans g m ps (y0 + (clusterHeight g m p + clusterSpacing)))"
    by auto
  then show ?case
  proof cases
    case 1
    then show ?thesis by (simp add: span_top_def span_height_def)
  next
    case 2
    from Cons.IH [OF 2] clusterHeight_ge [of g m p] show ?thesis
      by (simp add: clusterSpacing_def)
  qed
qed

lemma clusterSpans_separated:
  "sorted_wrt (\<lambda>a b. span_top a + span_height a + clusterSpacing \<le> span_top b)
     (clusterSpans g m ps y0)"
proof (induction ps arbitrary: y0)
  case Nil
  then show ?case by simp
next
  case (Cons p ps)
  have "span_top (p, y0, clusterHeight g m p) + span_height (p, y0, clusterHeight g m p)
          + clusterSpacing \<le> span_top c"
    if "c \<in> set (clusterSpans g m ps (y0 + (clusterHeight g m p + clusterSpacing)))" for c
    using clusterSpans_member [OF that] by (simp add: span_top_def span_height_def)
  with Cons.IH show ?case by simp
qed


lemma clusterSpans_hd:
  "ps \<noteq> [] \<Longrightarrow> hd (clusterSpans g m ps y0) = (hd ps, y0, clusterHeight g m (hd ps))"
  by (cases ps) simp_all

lemma length_clusterSpans: "length (clusterSpans g m ps y0) = length ps"
  by (induction ps arbitrary: y0) simp_all

section \<open>Pool nodes of the output\<close>

lemma poolServices_type: "s \<in> set (poolServices g p) \<Longrightarrow> node_type s = TService"
  by (simp add: poolServices_def)

lemma poolServices_subset: "set (poolServices g p) \<subseteq> set (nodes g)"
  by (simp add: poolServices_def)

lemma graphNodeOf_make:
  "graphNodeOf \<lparr>node_id = node_id s, node_type = node_type s, node_data = node_data s,
                 position = pos, meta = mt\<rparr> = (s :: GraphNode)"
  by (cases s) (simp add: graphNodeOf_def)

lemma graphNodeOf_serviceNodesAt: "map graphNodeOf (serviceNodesAt g p y0) = poolServices g p"
proof -
  have "map graphNodeOf (serviceNodesAt g p y0) = map snd (enumerate 0 (poolServices g p))"
    by (simp add: serviceNodesAt_def graphNodeOf_make case_prod_unfold o_def)
  then show ?thesis by simp
qed

lemma graphNodeOf_poolNodeAt: "graphNodeOf (poolNodeAt g m p y0) = p"
  by (simp add: poolNodeAt_def graphNodeOf_make)

lemma node_type_graphNodeOf: "node_type (graphNodeOf n) = node_type n"
  by (simp add: graphNodeOf_def)

lemma node_id_graphNodeOf: "node_id (graphNodeOf n) = node_id n"
  by (simp add: graphNodeOf_def)

lemma graphNodeOf_columnNodes: "map graphNodeOf (columnNodes xPos ySpacing ns) = ns"
proof -
  have "map graphNodeOf (columnNodes xPos ySpacing ns) = map snd (enumerate 0 ns)"
    by (simp add: columnNodes_def graphNodeOf_make case_prod_unfold o_def)
  then show ?thesis by simp
qed

lemma serviceNodesAt_type: "n \<in> set (serviceNodesAt g p y0) \<Longrightarrow> node_type n = TService"
proof -
  assume "n \<in> set (serviceNodesAt g p y0)"
  then have "graphNodeOf n \<in> set (map graphNodeOf (serviceNodesAt g p y0))" by simp
  then have "graphNodeOf n \<in> set (poolServices g p)" by (simp only: graphNodeOf_serviceNodesAt)
  then show ?thesis using poolServices_type [of "graphNodeOf n" g p] by (simp add: node_type_graphNodeOf)
qed

lemma columnNodes_type:
  assumes "n \<in> set (columnNodes xPos ySpacing ns)"
  shows "\<exists>a \<in> set ns. node_type n = node_type a"
proof -
  from assms have "graphNodeOf n \<in> set (map graphNodeOf (columnNodes xPos ySpacing ns))" by simp
  then have "graphNodeOf n \<in> set ns" by (simp only: graphNodeOf_columnNodes)
  then show ?thesis using node_type_graphNodeOf [of n] by metis
qed

lemma filter_pool_clusterNodes:
  assumes "node_type p = TComputePool"
  shows "filter (\<lambda>n. node_type n = TComputePool) (clusterNodes g m p y0) = [poolNodeAt g m p y0]"
proof -
  have "filter (\<lambda>n. node_type n = TComputePool) (serviceNodesAt g p y0) = []"
    using serviceNodesAt_type [of _ g p y0] by (auto simp: filter_empty_conv)
  moreover have "node_type (poolNodeAt g m p y0) = TComputePool"
    using assms by (simp add: poolNodeAt_def)
  ultimately show ?thesis by (simp add: clusterNodes_def)
qed

lemma filter_pool_columnNodes:
  assumes "\<And>a. a \<in> set ns \<Longrightarrow> node_type a \<noteq> TComputePool"
  shows "filter (\<lambda>n. node_type n = TComputePool) (columnNodes xPos ySpacing ns) = []"
  using columnNodes_type [of _ xPos ySpacing ns] assms by (fastforce simp: filter_empty_conv)

lemma filter_pool_clusters:
  assumes "\<And>p. p \<in> set ps \<Longrightarrow> node_type p = TComputePool"
  shows "filter (\<lambda>n. node_type n = TComputePool)
           (concat (map (\<lambda>(p, y0, h). clusterNodes g m p y0) (clusterSpans g m ps y)))
         = map (\<lambda>(p, y0, h). poolNodeAt g m p y0) (clusterSpans g m ps y)"
  using assms
  by (induction ps arbitrary: y) (simp_all add: filter_pool_clusterNodes)

lemma computePools_type: "p \<in> set (computePools g) \<Longrightarrow> node_type p = TComputePool"
  by (simp add: set_computePools poolNodes_def)

lemma output_poolNodes:
  "filter (\<lambda>n. node_type n = TComputePool) (result_nodes (layoutNodesWithClusters g m))
     = map (\<lambda>(p, y0, h). poolNodeAt g m p y0) (clusters g m)"
proof -
  have nb: "filter (\<lambda>n. node_type n = TComputePool)
      (columnNodes xPositions_notebook notebookYSpacing
         (filter (\<lambda>n. node_type n = TNotebook) (nodes g))) = []"
    by (rule filter_pool_columnNodes) simp
  have ea: "filter (\<lambda>n. node_type n = TComputePool)
      (columnNodes xPositions_eai eaiYSpacing (filter (\<lambda>n. node_type n = TEai) (nodes g))) = []"
    by (rule filter_pool_columnNodes) simp
  have cl: "filter (\<lambda>n. node_type n = TComputePool)
           (concat (map (\<lambda>(p, y0, h). clusterNodes g m p y0) (clusters g m)))
         = map (\<lambda>(p, y0, h). poolNodeAt g m p y0) (clusters g m)"
    unfolding clusters_def by (rule filter_pool_clusters) (rule computePools_type)
  show ?thesis
    by (simp add: layout_eq nb ea cl)
qed

lemma clusters_member:
  "c \<in> set (clusters g m) \<Longrightarrow>
     fst c \<in> set (poolNodes g) \<and> yOffset \<le> span_top c \<and> span_height c = clusterHeight g m (fst c)"
  unfolding clusters_def using clusterSpans_member [of c g m "computePools g" yOffset]
  by (simp add: set_computePools)


lemma clusters_separated:
  "sorted_wrt (\<lambda>a b. span_top a + span_height a + clusterSpacing \<le> span_top b) (clusters g m)"
  unfolding clusters_def by (rule clusterSpans_separated)

lemma clusters_height_ge: "c \<in> set (clusters g m) \<Longrightarrow> 80 \<le> span_height c"
  using clusters_member [of c g m] clusterHeight_ge [of g m "fst c"] by simp





section \<open>Order of the clusters\<close>

lemma computePools_sorted:
  "sorted_wrt (\<lambda>a b. length (poolServices g b) \<le> length (poolServices g a)) (computePools g)"
proof -
  have "sorted (map (\<lambda>p. - int (length (poolServices g p))) (computePools g))"
    unfolding computePools_eq by (rule sorted_sort_key)
  then show ?thesis
    by (simp add: sorted_map)
qed

lemma computePools_stable:
  "filter (\<lambda>p. length (poolServices g p) = k) (computePools g)
     = filter (\<lambda>p. length (poolServices g p) = k) (poolNodes g)"
  using sort_key_stable [of "\<lambda>p. - int (length (poolServices g p))" "- int k" "poolNodes g"]
  by (simp add: computePools_eq)

lemma clusters_top_increasing: "sorted_wrt (\<lambda>a b. span_top a < span_top b) (clusters g m)"
proof (rule sorted_wrt_mono_rel [OF _ clusters_separated])
  fix a b
  assume a: "a \<in> set (clusters g m)"
    and ab: "span_top a + span_height a + clusterSpacing \<le> span_top b"
  from clusters_height_ge [OF a] ab show "span_top a < span_top b"
    by (simp add: clusterSpacing_def)
qed

lemma clusters_hd:
  "poolNodes g \<noteq> [] \<Longrightarrow>
     hd (clusters g m) = (hd (computePools g), yOffset, clusterHeight g m (hd (computePools g)))"
proof -
  assume "poolNodes g \<noteq> []"
  then have "computePools g \<noteq> []"
    using set_computePools [of g] by (metis set_empty)
  then show ?thesis
    unfolding clusters_def by (rule clusterSpans_hd)
qed

lemma computePools_hd_max:
  assumes "p \<in> set (poolNodes g)"
  shows "hd (computePools g) \<in> set (poolNodes g)
     \<and> length (poolServices g p) \<le> length (poolServices g (hd (computePools g)))"
proof -
  from assms have ne: "computePools g \<noteq> []"
    using set_computePools [of g] by (metis empty_iff set_empty)
  then obtain x xs where xs: "computePools g = x # xs" by (cases "computePools g") auto
  from assms have "p \<in> set (x # xs)" by (simp add: set_computePools flip: xs)
  moreover from computePools_sorted [of g]
  have "\<forall>b \<in> set xs. length (poolServices g b) \<le> length (poolServices g x)"
    by (simp add: xs)
  ultimately have "length (poolServices g p) \<le> length (poolServices g x)" by auto
  moreover have "x \<in> set (poolNodes g)"
    using set_computePools [of g] unfolding xs by auto
  ultimately show ?thesis by (simp add: xs)
qed

lemma busiest_pool_first:
  assumes "p \<in> set (poolNodes g)"
    and "\<forall>q \<in> set (poolNodes g). q \<noteq> p \<longrightarrow> length (poolServices g q) < length (poolServices g p)"
  shows "hd (clusters g m) = (p, yOffset, clusterHeight g m p)"
proof -
  from computePools_hd_max [OF assms(1)] assms(2) have "hd (computePools g) = p"
    by (metis not_less)
  moreover from assms(1) have "poolNodes g \<noteq> []" by auto
  ultimately show ?thesis by (simp add: clusters_hd)
qed

text \<open>
  Claim C4. The clusters are laid out top to bottom in the order of \<open>computePools\<close>, which
  holds the pool nodes of the input in non-increasing order of the number of services
  grouped under the pool's name (collapsed or not), pools of equal count in input order.
  The first cluster starts at the top offset, and a pool with more services than every
  other pool is that first cluster: with counts 5 and 2, the pool of 5.
\<close>

theorem pools_ordered_by_service_count:
  "map fst (clusters g m) = computePools g
   \<and> mset (computePools g) = mset (poolNodes g)
   \<and> sorted_wrt (\<lambda>a b. length (poolServices g b) \<le> length (poolServices g a)) (computePools g)
   \<and> (\<forall>k. filter (\<lambda>p. length (poolServices g p) = k) (computePools g)
            = filter (\<lambda>p. length (poolServices g p) = k) (poolNodes g))
   \<and> sorted_wrt (\<lambda>a b. span_top a < span_top b) (clusters g m)
   \<and> filter (\<lambda>n. node_type n = TComputePool) (result_nodes (layoutNodesWithClusters g m))
        = map (\<lambda>(p, y0, h). poolNodeAt g m p y0) (clusters g m)
   \<and> (poolNodes g \<noteq> [] \<longrightarrow> span_top (hd (clusters g m)) = yOffset)
   \<and> (\<forall>p \<in> set (poolNodes g).
         (\<forall>q \<in> set (poolNodes g). q \<noteq> p \<longrightarrow>
             length (poolServices g q) < length (poolServices g p))
         \<longrightarrow> hd (clusters g m) = (p, yOffset, clusterHeight g m p))"
proof -
  have a: "map fst (clusters g m) = computePools g"
    by (simp add: clusters_def map_fst_clusterSpans)
  have h: "poolNodes g \<noteq> [] \<longrightarrow> span_top (hd (clusters g m)) = yOffset"
    by (simp add: clusters_hd span_top_def)
  show ?thesis
    using a mset_computePools computePools_sorted computePools_stable clusters_top_increasing
      output_poolNodes h busiest_pool_first
    by blast
qed

text \<open>
  Two pools in the input order SMALL, BIG, with 2 and 5 services: BIG is laid out first,
  from the top offset 50, and SMALL below it.
\<close>

theorem pools_ordered_by_service_count_witness:
  "length (poolServices ex_graph52 (ex_pool ''BIG'')) = 5
   \<and> length (poolServices ex_graph52 (ex_pool ''SMALL'')) = 2
   \<and> map node_id (poolNodes ex_graph52) = [''SMALL'', ''BIG'']
   \<and> map (\<lambda>c. (node_id (fst c), span_top c, span_height c)) (clusters ex_graph52 Map.empty)
       = [(''BIG'', 50, 350), (''SMALL'', 440, 140)]
   \<and> hd (clusters ex_graph52 Map.empty)
       = (ex_pool ''BIG'', yOffset, clusterHeight ex_graph52 Map.empty (ex_pool ''BIG''))"
proof -
  have n5: "length (poolServices ex_graph52 (ex_pool ''BIG'')) = 5"
    by code_simp
  have n2: "length (poolServices ex_graph52 (ex_pool ''SMALL'')) = 2"
    by code_simp
  have ps: "poolNodes ex_graph52 = [ex_pool ''SMALL'', ex_pool ''BIG'']"
    by code_simp
  have ids: "map node_id (poolNodes ex_graph52) = [''SMALL'', ''BIG'']"
    by code_simp
  have cl: "map (\<lambda>c. (node_id (fst c), span_top c, span_height c)) (clusters ex_graph52 Map.empty)
       = [(''BIG'', 50, 350), (''SMALL'', 440, 140)]"
    by code_simp
  have big: "ex_pool ''BIG'' \<in> set (poolNodes ex_graph52)"
    by (simp add: ps)
  have more: "\<forall>q \<in> set (poolNodes ex_graph52). q \<noteq> ex_pool ''BIG'' \<longrightarrow>
      length (poolServices ex_graph52 q) < length (poolServices ex_graph52 (ex_pool ''BIG''))"
    by (simp add: ps n5 n2)
  from pools_ordered_by_service_count [of ex_graph52 Map.empty] big more
  have "hd (clusters ex_graph52 Map.empty)
       = (ex_pool ''BIG'', yOffset, clusterHeight ex_graph52 Map.empty (ex_pool ''BIG''))"
    by blast
  with n5 n2 ids cl show ?thesis by blast
qed

section \<open>Where output nodes come from\<close>

lemma clusters_pool_exists:
  assumes "p \<in> set (poolNodes g)"
  shows "\<exists>y0. (p, y0, clusterHeight g m p) \<in> set (clusters g m)"
proof -
  have "map fst (clusters g m) = computePools g"
    by (simp add: clusters_def map_fst_clusterSpans)
  with assms have "p \<in> set (map fst (clusters g m))"
    by (simp add: set_computePools)
  then obtain c where c: "c \<in> set (clusters g m)" and p: "fst c = p" by auto
  from clusters_member [OF c] p have "c = (p, span_top c, clusterHeight g m p)"
    by (cases c) (simp add: span_top_def span_height_def)
  with c show ?thesis by metis
qed

lemma clusterNodes_in_output:
  assumes "(p, y0, h) \<in> set (clusters g m)"
  shows "set (clusterNodes g m p y0) \<subseteq> set (result_nodes (layoutNodesWithClusters g m))"
  using assms by (fastforce simp: layout_eq)

lemma output_cases:
  assumes "n \<in> set (result_nodes (layoutNodesWithClusters g m))"
  obtains (cluster) p y0 h where "(p, y0, h) \<in> set (clusters g m)" "n \<in> set (clusterNodes g m p y0)"
  | (notebook) "n \<in> set (columnNodes xPositions_notebook notebookYSpacing
                            (filter (\<lambda>n. node_type n = TNotebook) (nodes g)))"
  | (eai) "n \<in> set (columnNodes xPositions_eai eaiYSpacing
                            (filter (\<lambda>n. node_type n = TEai) (nodes g)))"
  using assms by (auto simp: layout_eq)

lemma columnNodes_origin:
  assumes "n \<in> set (columnNodes xPos ySpacing ns)"
  shows "graphNodeOf n \<in> set ns \<and> meta n = None"
proof -
  from assms have "graphNodeOf n \<in> set (map graphNodeOf (columnNodes xPos ySpacing ns))" by simp
  then have "graphNodeOf n \<in> set ns" by (simp only: graphNodeOf_columnNodes)
  moreover from assms have "meta n = None" by (auto simp: columnNodes_def)
  ultimately show ?thesis by simp
qed

lemma serviceNodesAt_origin:
  assumes "n \<in> set (serviceNodesAt g p y0)"
  shows "graphNodeOf n \<in> set (poolServices g p) \<and> meta n = None"
proof -
  from assms have "graphNodeOf n \<in> set (map graphNodeOf (serviceNodesAt g p y0))" by simp
  then have "graphNodeOf n \<in> set (poolServices g p)" by (simp only: graphNodeOf_serviceNodesAt)
  moreover from assms have "meta n = None" by (auto simp: serviceNodesAt_def)
  ultimately show ?thesis by simp
qed

lemma poolNodes_subset: "set (poolNodes g) \<subseteq> set (nodes g)"
  by (simp add: poolNodes_def)

lemma poolNodes_type: "p \<in> set (poolNodes g) \<Longrightarrow> node_type p = TComputePool"
  by (simp add: poolNodes_def)

lemma output_origin:
  assumes "n \<in> set (result_nodes (layoutNodesWithClusters g m))"
  shows "graphNodeOf n \<in> set (nodes g)
     \<and> (node_type n = TService \<longrightarrow>
          (\<exists>q \<in> set (poolNodes g). \<not> isCollapsed m (node_id q)
              \<and> graphNodeOf n \<in> set (poolServices g q)))"
  using assms
proof (cases rule: output_cases)
  case (cluster p y0 h)
  from clusters_member [OF cluster(1)] have p: "p \<in> set (poolNodes g)" by simp
  show ?thesis
  proof (cases "n = poolNodeAt g m p y0")
    case True
    have "node_type (poolNodeAt g m p y0) = node_type p"
      by (simp add: poolNodeAt_def)
    with True p poolNodes_subset [of g] poolNodes_type [OF p] show ?thesis
      by (auto simp: graphNodeOf_poolNodeAt)
  next
    case False
    with cluster(2) have nc: "\<not> isCollapsed m (node_id p)" and "n \<in> set (serviceNodesAt g p y0)"
      by (auto simp: clusterNodes_def split: if_splits)
    from serviceNodesAt_origin [OF this(2)] have "graphNodeOf n \<in> set (poolServices g p)" by simp
    with p nc poolServices_subset [of g p] show ?thesis by auto
  qed
next
  case notebook
  from columnNodes_origin [OF this] have "graphNodeOf n \<in> set (nodes g)"
    and "node_type (graphNodeOf n) = TNotebook" by simp_all
  then show ?thesis by (simp add: node_type_graphNodeOf)
next
  case eai
  from columnNodes_origin [OF this] have "graphNodeOf n \<in> set (nodes g)"
    and "node_type (graphNodeOf n) = TEai" by simp_all
  then show ?thesis by (simp add: node_type_graphNodeOf)
qed

lemma output_meta:
  assumes "n \<in> set (result_nodes (layoutNodesWithClusters g m))" "meta n = Some mt"
  shows "collapsed mt = isCollapsed m (node_id n)"
  using assms(1)
proof (cases rule: output_cases)
  case (cluster p y0 h)
  show ?thesis
  proof (cases "n = poolNodeAt g m p y0")
    case True
    with assms(2) show ?thesis by (auto simp: poolNodeAt_def)
  next
    case False
    with cluster(2) have "n \<in> set (serviceNodesAt g p y0)"
      by (auto simp: clusterNodes_def split: if_splits)
    from serviceNodesAt_origin [OF this] assms(2) show ?thesis by simp
  qed
next
  case notebook
  from columnNodes_origin [OF this] assms(2) show ?thesis by simp
next
  case eai
  from columnNodes_origin [OF this] assms(2) show ?thesis by simp
qed

lemma hidden_eq:
  "hiddenServiceIds (layoutNodesWithClusters g m) = (\<Union>p \<in> set (poolNodes g). clusterHidden g m p)"
  by (simp add: layout_eq)

lemma serviceNodesAt_nth:
  assumes "i < length (poolServices g p)"
  shows "serviceNodesAt g p y0 ! i =
     \<lparr>node_id = node_id (poolServices g p ! i), node_type = node_type (poolServices g p ! i),
      node_data = node_data (poolServices g p ! i),
      position = \<lparr>pos_x = xPositions_service, pos_y = y0 + int i * serviceYSpacing\<rparr>,
      meta = None\<rparr>"
  using assms by (simp add: serviceNodesAt_def nth_enumerate_eq)

lemma length_serviceNodesAt: "length (serviceNodesAt g p y0) = length (poolServices g p)"
  by (simp add: serviceNodesAt_def)

lemma createEdges_eq:
  "createEdges g hidden
     = map styledEdge (filter (\<lambda>e. source e \<notin> hidden \<and> target e \<notin> hidden) (edges g))"
  by (simp add: createEdges_def styledEdge_def)

section \<open>Determinism\<close>

text \<open>
  Claim C2. Every construct of the layout and of the edge filter is deterministic (no clock,
  no randomness, no iteration over an unordered collection, a stable sort), so they are
  functions of their arguments: identical graph data and collapse maps give identical
  results. More precisely, the result depends on the collapse map only through the truth
  value its read gives at the ids of the graph's pool nodes: two maps that agree there give the same
  coordinates, pool metadata, hidden ids and filtered edges.
\<close>

theorem layout_deterministic:
  "(g = g' \<and> m = m' \<longrightarrow> rendered g m = rendered g' m')
   \<and> ((\<forall>p \<in> set (poolNodes g). isCollapsed m (node_id p) = isCollapsed m' (node_id p))
        \<longrightarrow> layoutNodesWithClusters g m = layoutNodesWithClusters g m'
          \<and> rendered g m = rendered g m')"
proof -
  have "layoutNodesWithClusters g m = layoutNodesWithClusters g m'"
    if "\<forall>p \<in> set (poolNodes g). isCollapsed m (node_id p) = isCollapsed m' (node_id p)"
    using that by (intro layout_cong) blast
  then show ?thesis
    by (auto simp: rendered_def)
qed

text \<open>
  Two different collapse maps that give both pools of the example graph the same state.
\<close>

theorem layout_deterministic_witness:
  "[''A'' \<mapsto> False, ''Z'' \<mapsto> True] \<noteq> Map.empty
   \<and> layoutNodesWithClusters ex_graph [''A'' \<mapsto> False, ''Z'' \<mapsto> True]
       = layoutNodesWithClusters ex_graph Map.empty
   \<and> rendered ex_graph [''A'' \<mapsto> False, ''Z'' \<mapsto> True] = rendered ex_graph Map.empty"
proof -
  have h: "\<forall>p \<in> set (poolNodes ex_graph).
      isCollapsed [''A'' \<mapsto> False, ''Z'' \<mapsto> True] (node_id p) = isCollapsed Map.empty (node_id p)"
    by code_simp
  have "[''A'' \<mapsto> False, ''Z'' \<mapsto> True] ''Z'' \<noteq> Map.empty ''Z''"
    by simp
  then have "[''A'' \<mapsto> False, ''Z'' \<mapsto> True] \<noteq> Map.empty"
    by metis
  with h layout_deterministic [of ex_graph ex_graph "[''A'' \<mapsto> False, ''Z'' \<mapsto> True]" Map.empty]
  show ?thesis by blast
qed

section \<open>Pools absent from the collapse map\<close>

text \<open>
  What holds of absent ids: the initial map is empty; an id absent from the map reads as
  collapsed exactly when it names a member of \<^verbatim>\<open>Object.prototype\<close>; for a pool node whose
  id is absent and names no such member, the output holds the pool node with the collapsed
  flag false and a node for each of its services, stacked from the top of the cluster; and a
  toggle writes the toggled id alone.
\<close>

lemma absent_own_name_expanded:
  "initialCollapsedPools pid = None
   \<and> (m pid = None \<longrightarrow> (isCollapsed m pid \<longleftrightarrow> pid \<in> set objectPrototypeMembers))
   \<and> (\<forall>p \<in> set (poolNodes g).
        m (node_id p) = None \<longrightarrow> node_id p \<notin> set objectPrototypeMembers \<longrightarrow>
        (\<exists>y0. (p, y0, clusterHeight g m p) \<in> set (clusters g m)
           \<and> poolNodeAt g m p y0 \<in> set (result_nodes (layoutNodesWithClusters g m))
           \<and> meta (poolNodeAt g m p y0)
                = Some \<lparr>collapsed = False, serviceCount = length (poolServices g p),
                        onToggleCollapse = node_id p\<rparr>
           \<and> (\<forall>i < length (poolServices g p).
                 \<lparr>node_id = node_id (poolServices g p ! i),
                  node_type = node_type (poolServices g p ! i),
                  node_data = node_data (poolServices g p ! i),
                  position = \<lparr>pos_x = xPositions_service, pos_y = y0 + int i * serviceYSpacing\<rparr>,
                  meta = None\<rparr> \<in> set (result_nodes (layoutNodesWithClusters g m)))))
   \<and> (q \<noteq> pid \<longrightarrow> togglePoolCollapse m pid q = m q)"
proof -
  have a: "initialCollapsedPools pid = None"
    by (simp add: initialCollapsedPools_def)
  have b: "m pid = None \<longrightarrow> (isCollapsed m pid \<longleftrightarrow> pid \<in> set objectPrototypeMembers)"
    by (simp add: isCollapsed_absent)
  have c: "\<exists>y0. (p, y0, clusterHeight g m p) \<in> set (clusters g m)
           \<and> poolNodeAt g m p y0 \<in> set (result_nodes (layoutNodesWithClusters g m))
           \<and> meta (poolNodeAt g m p y0)
                = Some \<lparr>collapsed = False, serviceCount = length (poolServices g p),
                        onToggleCollapse = node_id p\<rparr>
           \<and> (\<forall>i < length (poolServices g p).
                 \<lparr>node_id = node_id (poolServices g p ! i),
                  node_type = node_type (poolServices g p ! i),
                  node_data = node_data (poolServices g p ! i),
                  position = \<lparr>pos_x = xPositions_service, pos_y = y0 + int i * serviceYSpacing\<rparr>,
                  meta = None\<rparr> \<in> set (result_nodes (layoutNodesWithClusters g m)))"
    if p: "p \<in> set (poolNodes g)" and absent: "m (node_id p) = None"
      and own: "node_id p \<notin> set objectPrototypeMembers" for p
  proof -
    from clusters_pool_exists [OF p] obtain y0
      where y0: "(p, y0, clusterHeight g m p) \<in> set (clusters g m)" by blast
    from absent own have nc: "\<not> isCollapsed m (node_id p)"
      by (simp add: isCollapsed_absent)
    have sub: "set (clusterNodes g m p y0) \<subseteq> set (result_nodes (layoutNodesWithClusters g m))"
      using y0 by (rule clusterNodes_in_output)
    have cn: "clusterNodes g m p y0 = poolNodeAt g m p y0 # serviceNodesAt g p y0"
      using nc by (simp add: clusterNodes_def)
    have pn: "poolNodeAt g m p y0 \<in> set (result_nodes (layoutNodesWithClusters g m))"
      using sub by (simp add: cn)
    have mt: "meta (poolNodeAt g m p y0)
                = Some \<lparr>collapsed = False, serviceCount = length (poolServices g p),
                        onToggleCollapse = node_id p\<rparr>"
      using nc by (simp add: poolNodeAt_def)
    have sv: "\<lparr>node_id = node_id (poolServices g p ! i),
                  node_type = node_type (poolServices g p ! i),
                  node_data = node_data (poolServices g p ! i),
                  position = \<lparr>pos_x = xPositions_service, pos_y = y0 + int i * serviceYSpacing\<rparr>,
                  meta = None\<rparr> \<in> set (result_nodes (layoutNodesWithClusters g m))"
      if i: "i < length (poolServices g p)" for i
    proof -
      from i have "serviceNodesAt g p y0 ! i \<in> set (serviceNodesAt g p y0)"
        by (simp add: length_serviceNodesAt)
      with sub have "serviceNodesAt g p y0 ! i \<in> set (result_nodes (layoutNodesWithClusters g m))"
        by (auto simp: cn)
      then show ?thesis by (simp only: serviceNodesAt_nth [OF i])
    qed
    from y0 pn mt sv show ?thesis by blast
  qed
  have e: "q \<noteq> pid \<longrightarrow> togglePoolCollapse m pid q = m q"
    by (simp add: togglePoolCollapse_def)
  show ?thesis
    using a b c e by blast
qed

text \<open>
  Claim C8. Every pool id not present in the collapse map is treated as expanded. The
  component means it (\<^verbatim>\<open>?? false\<close>), but the read \<^verbatim>\<open>collapsedPools[pool.id]\<close> on a plain
  object also finds what \<^verbatim>\<open>Object.prototype\<close> gives it. Under the initial, empty map the
  pool with id \<open>constructor\<close> and one service is laid out collapsed: the output is the pool
  node alone with the collapsed flag true, the service's id is hidden and its edge is not
  rendered; the first toggle of that pool writes false.
\<close>

theorem absent_inherited_id_collapsed:
  "initialCollapsedPools (node_id (ex_pool ''constructor'')) = None
   \<and> ex_pool ''constructor'' \<in> set (poolNodes ex_graph_inherited)
   \<and> map node_id (poolServices ex_graph_inherited (ex_pool ''constructor'')) = [''s1'']
   \<and> isCollapsed initialCollapsedPools (node_id (ex_pool ''constructor''))
   \<and> map (\<lambda>n. (node_id n, pos_x (position n), pos_y (position n), meta n))
        (result_nodes (layoutNodesWithClusters ex_graph_inherited initialCollapsedPools))
       = [(''constructor'', 750, 50,
           Some \<lparr>collapsed = True, serviceCount = 1, onToggleCollapse = ''constructor''\<rparr>)]
   \<and> ''s1'' \<in> hiddenServiceIds (layoutNodesWithClusters ex_graph_inherited initialCollapsedPools)
   \<and> snd (rendered ex_graph_inherited initialCollapsedPools) = []
   \<and> togglePoolCollapse initialCollapsedPools ''constructor'' ''constructor'' = Some False"
  by code_simp

section \<open>Services without a pool node\<close>

lemma distinct_map_eq:
  assumes "distinct (map f xs)" "a \<in> set xs" "b \<in> set xs" "f a = f b"
  shows "a = b"
  using assms by (meson distinct_map inj_onD)

lemma poolServices_computePool:
  "s \<in> set (poolServices g p) \<Longrightarrow> data_computePool (node_data s) = Some (data_name (node_data p))"
  by (simp add: poolServices_def)

lemma hidden_is_service:
  assumes "x \<in> hiddenServiceIds (layoutNodesWithClusters g m)"
  shows "\<exists>q \<in> set (poolNodes g). \<exists>t \<in> set (poolServices g q). node_id t = x"
  using assms by (auto simp: hidden_eq clusterHidden_def split: if_splits)

text \<open>
  Claim C9. In a graph as the backend emits it, a service whose compute-pool attribute is
  the name of no pool node has no node in the layout output and its id is not in the hidden
  set; so every edge of the graph that references the service passes the edge filter, while
  the service's node is not rendered.
\<close>

theorem orphan_service_not_laid_out:
  assumes "wellFormed g"
    and "s \<in> set (nodes g)" and "node_type s = TService"
    and "\<forall>p \<in> set (poolNodes g). data_computePool (node_data s) \<noteq> Some (data_name (node_data p))"
  shows "node_id s \<notin> set (map node_id (result_nodes (layoutNodesWithClusters g m)))
     \<and> node_id s \<notin> hiddenServiceIds (layoutNodesWithClusters g m)
     \<and> (\<forall>e \<in> set (edges g). source e = node_id s \<or> target e = node_id s
           \<longrightarrow> styledEdge e
                 \<in> set (createEdges g (hiddenServiceIds (layoutNodesWithClusters g m))))"
proof -
  from assms(1) have d: "distinct (map node_id (nodes g))"
    by (simp add: wellFormed_def)
  have no_pool: "s \<notin> set (poolServices g q)" if "q \<in> set (poolNodes g)" for q
    using poolServices_computePool [of s g q] assms(4) that by blast
  have a: "node_id s \<notin> set (map node_id (result_nodes (layoutNodesWithClusters g m)))"
  proof
    assume "node_id s \<in> set (map node_id (result_nodes (layoutNodesWithClusters g m)))"
    then obtain n where n: "n \<in> set (result_nodes (layoutNodesWithClusters g m))"
      and id: "node_id n = node_id s" by auto
    note o = output_origin [OF n]
    from o have "graphNodeOf n \<in> set (nodes g)" by simp
    with d assms(2) id have eq: "graphNodeOf n = s"
      by (intro distinct_map_eq [of node_id "nodes g"]) (simp_all add: node_id_graphNodeOf)
    then have "node_type n = TService"
      using assms(3) node_type_graphNodeOf [of n] by simp
    with o eq obtain q where "q \<in> set (poolNodes g)" "s \<in> set (poolServices g q)" by auto
    with no_pool show False by blast
  qed
  have b: "node_id s \<notin> hiddenServiceIds (layoutNodesWithClusters g m)"
  proof
    assume "node_id s \<in> hiddenServiceIds (layoutNodesWithClusters g m)"
    from hidden_is_service [OF this] obtain q t where q: "q \<in> set (poolNodes g)"
      and t: "t \<in> set (poolServices g q)" and id: "node_id t = node_id s" by blast
    from t poolServices_subset [of g q] have "t \<in> set (nodes g)" by blast
    with d assms(2) id have "t = s" by (intro distinct_map_eq [of node_id "nodes g"])
    with t no_pool [OF q] show False by simp
  qed
  have c: "styledEdge e \<in> set (createEdges g (hiddenServiceIds (layoutNodesWithClusters g m)))"
    if e: "e \<in> set (edges g)" and ref: "source e = node_id s \<or> target e = node_id s" for e
  proof -
    from assms(1) e obtain u where u: "u \<in> set (nodes g)"
      "node_type u = TComputePool \<or> node_type u = TEai" "target e = node_id u"
      by (auto simp: wellFormed_def)
    have tgt: "target e \<noteq> node_id s"
    proof
      assume "target e = node_id s"
      with d u(1,3) assms(2) have "u = s"
        by (intro distinct_map_eq [of node_id "nodes g"]) simp_all
      with u(2) assms(3) show False by simp
    qed
    with ref have src: "source e = node_id s" by simp
    have "target e \<notin> hiddenServiceIds (layoutNodesWithClusters g m)"
    proof
      assume "target e \<in> hiddenServiceIds (layoutNodesWithClusters g m)"
      from hidden_is_service [OF this] obtain q t where t: "t \<in> set (poolServices g q)"
        and id: "node_id t = target e" by blast
      from t poolServices_subset [of g q] have "t \<in> set (nodes g)" by blast
      with d u(1,3) id have "t = u"
        by (intro distinct_map_eq [of node_id "nodes g"]) simp_all
      with poolServices_type [OF t] u(2) show False by simp
    qed
    with src b e show ?thesis
      by (simp add: createEdges_eq)
  qed
  from a b c show ?thesis by blast
qed

text \<open>
  In the example graph, with pool \<open>B\<close> collapsed, the service \<open>s3\<close> is not laid out and not
  hidden, and its edge to the integration \<open>e1\<close> is rendered.
\<close>

theorem orphan_service_not_laid_out_witness:
  "wellFormed ex_graph
   \<and> ex_svc ''s3'' [] \<in> set (nodes ex_graph)
   \<and> ex_edge ''s3'' ''e1'' \<in> set (edges ex_graph)
   \<and> source (ex_edge ''s3'' ''e1'') = node_id (ex_svc ''s3'' [])
   \<and> node_id (ex_svc ''s3'' [])
        \<notin> set (map node_id (result_nodes (layoutNodesWithClusters ex_graph [''B'' \<mapsto> True])))
   \<and> node_id (ex_svc ''s3'' []) \<notin> hiddenServiceIds (layoutNodesWithClusters ex_graph [''B'' \<mapsto> True])
   \<and> styledEdge (ex_edge ''s3'' ''e1'')
        \<in> set (createEdges ex_graph
                 (hiddenServiceIds (layoutNodesWithClusters ex_graph [''B'' \<mapsto> True])))"
proof -
  have w: "wellFormed ex_graph"
    by code_simp
  have s: "ex_svc ''s3'' [] \<in> set (nodes ex_graph)"
    by code_simp
  have t: "node_type (ex_svc ''s3'' []) = TService"
    by code_simp
  have ps: "poolNodes ex_graph = [ex_pool ''A'', ex_pool ''B'']"
    by code_simp
  have o: "\<forall>p \<in> set (poolNodes ex_graph).
      data_computePool (node_data (ex_svc ''s3'' [])) \<noteq> Some (data_name (node_data p))"
    by (simp add: ps ex_svc_def ex_pool_def)
  have e: "ex_edge ''s3'' ''e1'' \<in> set (edges ex_graph)"
    by code_simp
  have src: "source (ex_edge ''s3'' ''e1'') = node_id (ex_svc ''s3'' [])"
    by code_simp
  from orphan_service_not_laid_out [OF w s t o, of "[''B'' \<mapsto> True]"] w s e src
  show ?thesis by blast
qed

section \<open>Collapsing one pool\<close>

lemma graphNodeOf_clusterNodes:
  "map graphNodeOf (clusterNodes g m q y0) = visibleCluster g m q"
  by (simp add: clusterNodes_def visibleCluster_def graphNodeOf_poolNodeAt
      graphNodeOf_serviceNodesAt)

lemma graphNodeOf_clusterSpans:
  "map graphNodeOf (concat (map (\<lambda>(q, y0, h). clusterNodes g m q y0) (clusterSpans g m ps y)))
     = concat (map (visibleCluster g m) ps)"
  by (induction ps arbitrary: y) (simp_all add: graphNodeOf_clusterNodes)

lemma graphNodeOf_output:
  "map graphNodeOf (result_nodes (layoutNodesWithClusters g m))
     = concat (map (visibleCluster g m) (computePools g))
       @ filter (\<lambda>n. node_type n = TNotebook) (nodes g)
       @ filter (\<lambda>n. node_type n = TEai) (nodes g)"
  by (simp add: layout_eq clusters_def graphNodeOf_clusterSpans graphNodeOf_columnNodes)

lemma visibleCluster_toggle:
  assumes "\<not> isCollapsed m pid"
  shows "mset (visibleCluster g m q)
     = mset (visibleCluster g (togglePoolCollapse m pid) q)
       + (if node_id q = pid then mset (poolServices g q) else {#})"
  using assms by (simp add: visibleCluster_def isCollapsed_toggle)

lemma visibleClusters_toggle:
  assumes "\<not> isCollapsed m pid"
  shows "mset (concat (map (visibleCluster g m) ps))
     = mset (concat (map (visibleCluster g (togglePoolCollapse m pid)) ps))
       + mset (concat (map (poolServices g) (filter (\<lambda>q. node_id q = pid) ps)))"
proof (induction ps)
  case Nil
  then show ?case by simp
next
  case (Cons q ps)
  show ?case
    by (simp add: Cons.IH visibleCluster_toggle [OF assms, of g q])
qed

lemma filter_same_key:
  assumes "distinct (map f xs)" "p \<in> set xs"
  shows "filter (\<lambda>q. f q = f p) xs = [p]"
  using assms
proof (induction xs)
  case Nil
  then show ?case by simp
next
  case (Cons x xs)
  show ?case
  proof (cases "x = p")
    case True
    with Cons.prems have "\<forall>q \<in> set xs. f q \<noteq> f p" by (auto simp: image_iff)
    then have "filter (\<lambda>q. f q = f p) xs = []" by (simp add: filter_empty_conv)
    with True show ?thesis by simp
  next
    case False
    with Cons.prems have "p \<in> set xs" "f x \<noteq> f p" by auto
    with Cons.IH Cons.prems show ?thesis by simp
  qed
qed

lemma distinct_ids_computePools:
  assumes "distinct (map node_id (poolNodes g))"
  shows "distinct (map node_id (computePools g))"
proof -
  have "mset (map node_id (computePools g)) = mset (map node_id (poolNodes g))"
    by (simp add: mset_computePools)
  with assms show ?thesis
    by (metis mset_eq_imp_distinct_iff)
qed

lemma output_collapse_mset:
  assumes "distinct (map node_id (poolNodes g))" "p \<in> set (poolNodes g)"
    "\<not> isCollapsed m (node_id p)"
  shows "mset (map graphNodeOf (result_nodes (layoutNodesWithClusters g m)))
     = mset (map graphNodeOf
         (result_nodes (layoutNodesWithClusters g (togglePoolCollapse m (node_id p)))))
       + mset (poolServices g p)"
proof -
  from assms(2) have "p \<in> set (computePools g)" by (simp add: set_computePools)
  with distinct_ids_computePools [OF assms(1)]
  have "filter (\<lambda>q. node_id q = node_id p) (computePools g) = [p]"
    by (rule filter_same_key)
  with visibleClusters_toggle [OF assms(3), of g "computePools g"] show ?thesis
    by (simp add: graphNodeOf_output)
qed

lemma hidden_collapse:
  assumes "distinct (map node_id (poolNodes g))" "p \<in> set (poolNodes g)"
    "\<not> isCollapsed m (node_id p)"
  shows "hiddenServiceIds (layoutNodesWithClusters g (togglePoolCollapse m (node_id p)))
     = hiddenServiceIds (layoutNodesWithClusters g m) \<union> set (map node_id (poolServices g p))"
proof -
  have same: "q = p" if "q \<in> set (poolNodes g)" "node_id q = node_id p" for q
    using assms(1) that(1) assms(2) that(2) by (rule distinct_map_eq)
  have "clusterHidden g (togglePoolCollapse m (node_id p)) q
      = clusterHidden g m q \<union> (if q = p then set (map node_id (poolServices g p)) else {})"
    if "q \<in> set (poolNodes g)" for q
    using same [OF that] assms(3) by (auto simp: clusterHidden_def isCollapsed_toggle)
  then have "(\<Union>q \<in> set (poolNodes g). clusterHidden g (togglePoolCollapse m (node_id p)) q)
      = (\<Union>q \<in> set (poolNodes g). clusterHidden g m q
           \<union> (if q = p then set (map node_id (poolServices g p)) else {}))"
    by simp
  also have "\<dots> = (\<Union>q \<in> set (poolNodes g). clusterHidden g m q)
      \<union> set (map node_id (poolServices g p))"
    using assms(2) by (auto split: if_splits)
  finally show ?thesis by (simp only: hidden_eq)
qed

lemma createEdges_more_hidden:
  "createEdges g (H \<union> I) = filter (\<lambda>e. source e \<notin> I \<and> target e \<notin> I) (createEdges g H)"
proof -
  have "filter (\<lambda>e. source e \<notin> I \<and> target e \<notin> I) (map styledEdge es)
      = map styledEdge (filter (\<lambda>e. source e \<notin> I \<and> target e \<notin> I) es)" for es
    by (induction es) (simp_all add: styledEdge_def)
  then show ?thesis
    by (auto simp: createEdges_eq intro: arg_cong [of _ _ "map styledEdge"] filter_cong)
qed

lemma rendered_toggle_twice:
  "rendered g (togglePoolCollapse (togglePoolCollapse m pid) pid) = rendered g m"
proof -
  have "layoutNodesWithClusters g (togglePoolCollapse (togglePoolCollapse m pid) pid)
      = layoutNodesWithClusters g m"
    by (rule layout_cong) (simp add: isCollapsed_toggle)
  then show ?thesis by (simp only: rendered_def)
qed

lemma collapsed_services_gone:
  assumes d: "distinct (map node_id (nodes g))" and p: "p \<in> set (poolNodes g)"
    and c: "isCollapsed m (node_id p)"
    and u: "\<forall>q \<in> set (poolNodes g). data_name (node_data q) = data_name (node_data p) \<longrightarrow> q = p"
  shows "set (map node_id (poolServices g p))
           \<inter> set (map node_id (result_nodes (layoutNodesWithClusters g m))) = {}"
proof -
  have False
    if s: "s \<in> set (poolServices g p)"
      and n: "n \<in> set (result_nodes (layoutNodesWithClusters g m))"
      and id: "node_id n = node_id s" for s n
  proof -
    note o = output_origin [OF n]
    from s poolServices_subset [of g p] have sg: "s \<in> set (nodes g)" by blast
    from o have "graphNodeOf n \<in> set (nodes g)" by simp
    with d sg id have eq: "graphNodeOf n = s"
      by (intro distinct_map_eq [of node_id "nodes g"]) (simp_all add: node_id_graphNodeOf)
    then have "node_type n = TService"
      using poolServices_type [OF s] node_type_graphNodeOf [of n] by simp
    with o eq obtain q where q: "q \<in> set (poolNodes g)" "\<not> isCollapsed m (node_id q)"
      "s \<in> set (poolServices g q)" by auto
    from poolServices_computePool [OF s] poolServices_computePool [OF q(3)]
    have "data_name (node_data q) = data_name (node_data p)" by simp
    with u q(1) have "q = p" by blast
    with q(2) c show False by simp
  qed
  then show ?thesis by fastforce
qed

lemma expanded_services_rendered:
  assumes "p \<in> set (poolNodes g)" "\<not> isCollapsed m (node_id p)"
  shows "set (poolServices g p) \<subseteq> set (map graphNodeOf (result_nodes (layoutNodesWithClusters g m)))"
proof -
  from assms(1) have "p \<in> set (computePools g)" by (simp add: set_computePools)
  moreover from assms(2) have "set (poolServices g p) \<subseteq> set (visibleCluster g m p)"
    by (auto simp: visibleCluster_def)
  ultimately show ?thesis
    unfolding graphNodeOf_output by auto
qed

text \<open>
  Claim C5. In a graph whose pool nodes have unique ids, collapsing an expanded pool takes
  exactly the pool's services out of the rendered nodes (all of them were rendered before,
  the rendered nodes lose them and nothing else, and none of their ids remains when node ids
  are unique and no other pool node bears the pool's name), adds exactly their ids to the
  hidden set, and takes out of the rendered edges exactly those whose source or target is
  one of them. The graph data is an argument that the layout and the edge filter only read,
  and toggling the pool again gives the rendered nodes and edges of before.
\<close>

theorem collapse_hides_pool_services:
  assumes "distinct (map node_id (poolNodes g))"
    and "p \<in> set (poolNodes g)"
    and "\<not> isCollapsed m (node_id p)"
  shows "isCollapsed (togglePoolCollapse m (node_id p)) (node_id p)
     \<and> set (poolServices g p) \<subseteq> set (map graphNodeOf (result_nodes (layoutNodesWithClusters g m)))
     \<and> mset (map graphNodeOf (result_nodes (layoutNodesWithClusters g m)))
         = mset (map graphNodeOf
             (result_nodes (layoutNodesWithClusters g (togglePoolCollapse m (node_id p)))))
           + mset (poolServices g p)
     \<and> (distinct (map node_id (nodes g))
          \<and> (\<forall>q \<in> set (poolNodes g). data_name (node_data q) = data_name (node_data p) \<longrightarrow> q = p)
          \<longrightarrow> set (map node_id (poolServices g p))
                \<inter> set (map node_id (result_nodes
                     (layoutNodesWithClusters g (togglePoolCollapse m (node_id p))))) = {})
     \<and> hiddenServiceIds (layoutNodesWithClusters g (togglePoolCollapse m (node_id p)))
         = hiddenServiceIds (layoutNodesWithClusters g m) \<union> set (map node_id (poolServices g p))
     \<and> snd (rendered g (togglePoolCollapse m (node_id p)))
         = filter (\<lambda>e. source e \<notin> set (map node_id (poolServices g p))
                      \<and> target e \<notin> set (map node_id (poolServices g p)))
             (snd (rendered g m))
     \<and> rendered g (togglePoolCollapse (togglePoolCollapse m (node_id p)) (node_id p))
         = rendered g m"
proof -
  let ?m' = "togglePoolCollapse m (node_id p)"
  have c: "isCollapsed ?m' (node_id p)"
    using assms(3) by (simp add: isCollapsed_toggle)
  have gone: "set (map node_id (poolServices g p))
                \<inter> set (map node_id (result_nodes (layoutNodesWithClusters g ?m'))) = {}"
    if "distinct (map node_id (nodes g))"
      "\<forall>q \<in> set (poolNodes g). data_name (node_data q) = data_name (node_data p) \<longrightarrow> q = p"
    using that(1) assms(2) c that(2) by (rule collapsed_services_gone)
  have h: "hiddenServiceIds (layoutNodesWithClusters g ?m')
         = hiddenServiceIds (layoutNodesWithClusters g m) \<union> set (map node_id (poolServices g p))"
    using assms by (rule hidden_collapse)
  have e: "snd (rendered g ?m')
         = filter (\<lambda>e. source e \<notin> set (map node_id (poolServices g p))
                      \<and> target e \<notin> set (map node_id (poolServices g p)))
             (snd (rendered g m))"
    by (simp only: rendered_def Let_def snd_conv h createEdges_more_hidden)
  show ?thesis
    using c expanded_services_rendered [OF assms(2,3)] output_collapse_mset [OF assms]
      gone h e rendered_toggle_twice [of g m "node_id p"]
    by blast
qed

text \<open>
  The scenario of the specification: collapsing the pool \<open>P\<close> with three services leaves
  the two pool nodes, the service of \<open>Q\<close> and the integration, and of the five edges the one
  of \<open>Q\<close>'s service; expanding again gives back the first rendering.
\<close>

theorem collapse_hides_pool_services_witness:
  "distinct (map node_id (poolNodes ex_graph3))
   \<and> length (poolServices ex_graph3 (ex_pool ''P'')) = 3
   \<and> map node_id (result_nodes (layoutNodesWithClusters ex_graph3 Map.empty))
       = [''P'', ''s1'', ''s2'', ''s3'', ''Q'', ''t1'', ''e1'']
   \<and> map node_id (result_nodes (layoutNodesWithClusters ex_graph3
          (togglePoolCollapse Map.empty (node_id (ex_pool ''P'')))))
       = [''P'', ''Q'', ''t1'', ''e1'']
   \<and> map (\<lambda>e. (source e, target e))
         (snd (rendered ex_graph3 (togglePoolCollapse Map.empty (node_id (ex_pool ''P'')))))
       = [(''t1'', ''Q'')]
   \<and> mset (map graphNodeOf (result_nodes (layoutNodesWithClusters ex_graph3 Map.empty)))
       = mset (map graphNodeOf (result_nodes (layoutNodesWithClusters ex_graph3
                 (togglePoolCollapse Map.empty (node_id (ex_pool ''P''))))))
         + mset (poolServices ex_graph3 (ex_pool ''P''))
   \<and> set (map node_id (poolServices ex_graph3 (ex_pool ''P'')))
        \<inter> set (map node_id (result_nodes (layoutNodesWithClusters ex_graph3
                 (togglePoolCollapse Map.empty (node_id (ex_pool ''P'')))))) = {}
   \<and> rendered ex_graph3
        (togglePoolCollapse (togglePoolCollapse Map.empty (node_id (ex_pool ''P'')))
           (node_id (ex_pool ''P'')))
       = rendered ex_graph3 Map.empty"
proof -
  have d: "distinct (map node_id (nodes ex_graph3))"
    by code_simp
  have ps: "poolNodes ex_graph3 = [ex_pool ''P'', ex_pool ''Q'']"
    by code_simp
  have dp: "distinct (map node_id (poolNodes ex_graph3))"
    by code_simp
  have p: "ex_pool ''P'' \<in> set (poolNodes ex_graph3)"
    by (simp add: ps)
  have x: "\<not> isCollapsed Map.empty (node_id (ex_pool ''P''))"
    by code_simp
  have u: "\<forall>q \<in> set (poolNodes ex_graph3).
      data_name (node_data q) = data_name (node_data (ex_pool ''P'')) \<longrightarrow> q = ex_pool ''P''"
    by (simp add: ps ex_pool_def)
  have n3: "length (poolServices ex_graph3 (ex_pool ''P'')) = 3"
    by code_simp
  have before: "map node_id (result_nodes (layoutNodesWithClusters ex_graph3 Map.empty))
       = [''P'', ''s1'', ''s2'', ''s3'', ''Q'', ''t1'', ''e1'']"
    by code_simp
  have after: "map node_id (result_nodes (layoutNodesWithClusters ex_graph3
          (togglePoolCollapse Map.empty (node_id (ex_pool ''P'')))))
       = [''P'', ''Q'', ''t1'', ''e1'']"
    by code_simp
  have es: "map (\<lambda>e. (source e, target e))
         (snd (rendered ex_graph3 (togglePoolCollapse Map.empty (node_id (ex_pool ''P'')))))
       = [(''t1'', ''Q'')]"
    by code_simp
  from collapse_hides_pool_services [OF dp p x] u d dp n3 before after es
  show ?thesis by blast
qed

end
